theory Spec2Isabelle
  imports Complex_Main "HOL-Library.Word" "HOL-Library.AList" "HOL-Library.Sublist"
begin

section \<open>Data model of the local scheduler's algorithm state\<close>

text \<open>
  The embedding follows \<^verbatim>\<open>src/local_scheduler/local_scheduler_algorithm.cc\<close>.
  Unique identifiers (20 bytes in the source) are abstract; \<^verbatim>\<open>NIL_ID\<close> is the
  distinguished nil value.  Pointers to worker clients are addresses (\<open>nat\<close>), a
  nullable pointer is an \<open>option\<close>.  A \<^verbatim>\<open>std::list\<close> iterator kept across calls
  (the cursors in \<^verbatim>\<open>ObjectEntry::dependent_tasks\<close>) is the identity of a list node.
\<close>

datatype UniqueID = NIL_ID | ID nat

type_synonym ObjectID = UniqueID
type_synonym ActorID = UniqueID
type_synonym WorkerID = UniqueID
type_synonym TaskID = UniqueID
type_synonym DBClientID = UniqueID
type_synonym int64 = "64 word"

definition NIL_ACTOR_ID :: ActorID where
  "NIL_ACTOR_ID = NIL_ID"

text \<open>
  Modelled from the spec: \<^verbatim>\<open>ResourceIndex_MAX\<close> is declared in \<^verbatim>\<open>common/task.h\<close>, which is
  not part of the sources; the spec names the resource kinds CPU and GPU.
\<close>

definition ResourceIndex_MAX :: nat where
  "ResourceIndex_MAX = 2"

text \<open>
  Modelled from the spec: the task specification and its accessors are declared in
  \<^verbatim>\<open>common/task.h\<close>.  The spec (section 3) lists the fields; each field below carries the
  name of the accessor the source calls.  Resource quantities are finite doubles in the
  source; the algorithm only compares them, so they are rationals here.
\<close>

datatype task_arg = ArgByRef ObjectID | ArgByVal nat

record TaskSpec =
  TaskSpec_driver_id :: WorkerID
  TaskSpec_task_id :: TaskID
  TaskSpec_actor_id :: ActorID
  TaskSpec_actor_counter :: int64
  TaskSpec_args :: "task_arg list"
  TaskSpec_get_required_resource :: "nat \<Rightarrow> rat"

text \<open>Modelled from the spec: a task is dependent on an object when it references it by
  reference (\<^verbatim>\<open>TaskSpec_is_dependent_on\<close> of \<^verbatim>\<open>common/task.h\<close>).\<close>

definition TaskSpec_is_dependent_on :: "TaskSpec \<Rightarrow> ObjectID \<Rightarrow> bool" where
  "TaskSpec_is_dependent_on tspec oid = (ArgByRef oid \<in> set (TaskSpec_args tspec))"

record TaskQueueEntry =
  spec :: TaskSpec
  task_spec_size :: int64

record ObjectEntry =
  object_id :: ObjectID
  dependent_tasks :: "nat list"

record LocalActorInfo =
  actor_id :: ActorID
  task_counter :: int64
  task_queue :: "TaskQueueEntry list"
  worker :: "nat option"
  worker_available :: bool

text \<open>
  The waiting queue is a list of nodes, each with its identity; \<open>next_node\<close> is the
  allocator's next fresh identity.  No iterator into the dispatch queue or an actor's
  queue outlives a call, so these are plain lists.  \<^verbatim>\<open>remote_objects\<close> is iterated
  by the source and is an association list with distinct keys (its order stands for
  the unspecified iteration order of the hash map); the maps that are only looked up
  are partial functions.
\<close>

record SchedulingAlgorithmState =
  waiting_task_queue :: "(nat \<times> TaskQueueEntry) list"
  dispatch_task_queue :: "TaskQueueEntry list"
  local_actor_infos :: "ActorID \<rightharpoonup> LocalActorInfo"
  cached_submitted_actor_tasks :: "TaskSpec list"
  cached_submitted_actor_task_sizes :: "int64 list"
  available_workers :: "nat list"
  executing_workers :: "nat list"
  blocked_workers :: "nat list"
  local_objects :: "ObjectID \<rightharpoonup> ObjectEntry"
  remote_objects :: "(ObjectID \<times> ObjectEntry) list"
  next_node :: nat

subsection \<open>Collaborator state\<close>

text \<open>
  \<^verbatim>\<open>LocalSchedulerState\<close> and \<^verbatim>\<open>LocalSchedulerClient\<close> are declared in
  \<^verbatim>\<open>local_scheduler_shared.h\<close>; the records hold what this file reads.  \<open>db_connected\<close>
  is \<^verbatim>\<open>state->db != NULL\<close> and \<open>db_client_id\<close> the value of
  \<^verbatim>\<open>get_db_client_id(state->db)\<close>; \<open>plasma_connected\<close> is
  \<^verbatim>\<open>plasma_manager_is_connected(state->plasma_conn)\<close>.  Calls into collaborators are
  recorded, in order, in \<open>calls\<close>.  Debug logging is not recorded.
\<close>

datatype task_status = TASK_STATUS_WAITING | TASK_STATUS_SCHEDULED | TASK_STATUS_QUEUED

datatype Task = Task_alloc TaskSpec int64 task_status DBClientID

datatype call =
    Assign_task_to_worker TaskSpec int64 "nat option"
  | Free_TaskSpec TaskSpec
  | Start_worker ActorID
  | Plasma_fetch "ObjectID list"
  | Reconstruct_object ObjectID
  | Task_table_add_task Task
  | Task_table_update Task
  | Print_resource_info TaskSpec
  | Log_info string
  | Log_warn string

record ActorMapEntry =
  local_scheduler_id :: DBClientID

record LocalSchedulerClient =
  client_ptr :: nat
  task_in_progress :: "Task option"
  client_actor_id :: ActorID

record LocalSchedulerState =
  dynamic_resources :: "nat \<Rightarrow> rat"
  static_resources :: "nat \<Rightarrow> rat"
  child_pids :: "nat list"
  actor_mapping :: "ActorID \<rightharpoonup> ActorMapEntry"
  db_connected :: bool
  db_client_id :: DBClientID
  global_scheduler_exists :: bool
  plasma_connected :: bool
  calls :: "call list"

subsection \<open>Failures\<close>

text \<open>
  \<^verbatim>\<open>CHECK\<close> aborts the process when its condition is false.  A dereference of an
  invalidated iterator or of a null element pointer is undefined behaviour.
\<close>

datatype error = Check_failure string | Undefined_behaviour string

type_synonym 'a result = "error + 'a"

definition CHECK :: "bool \<Rightarrow> string \<Rightarrow> 'a result \<Rightarrow> 'a result" where
  "CHECK cond msg continue = (if cond then continue else Inl (Check_failure msg))"

text \<open>
  Modelled from the spec: the macro \<^verbatim>\<open>DCHECK\<close> is defined in \<^verbatim>\<open>common.h\<close>, outside the
  sources.  The spec treats the conditions it guards as enforced (section 4.3: the worker
  "must not already be in" the sequence; section 7: an invariant violation is fatal), so
  it is a \<^verbatim>\<open>CHECK\<close>.
\<close>

definition DCHECK :: "bool \<Rightarrow> string \<Rightarrow> 'a result \<Rightarrow> 'a result" where
  "DCHECK cond msg continue = CHECK cond msg continue"

definition record_call :: "call \<Rightarrow> LocalSchedulerState \<Rightarrow> LocalSchedulerState" where
  "record_call c state = state\<lparr>calls := calls state @ [c]\<rparr>"

text \<open>
  Modelled from the spec: \<^verbatim>\<open>assign_task_to_worker\<close> is the worker-assignment collaborator
  (section 6): it hands the task to the worker and debits \<open>dynamic_resources\<close> by the
  task's required resources.
\<close>

definition assign_task_to_worker ::
  "LocalSchedulerState \<Rightarrow> TaskSpec \<Rightarrow> int64 \<Rightarrow> nat option \<Rightarrow> LocalSchedulerState" where
  "assign_task_to_worker state tspec tsize w =
     record_call (Assign_task_to_worker tspec tsize w)
       (state\<lparr>dynamic_resources :=
          (\<lambda>i. if i < ResourceIndex_MAX
                then dynamic_resources state i - TaskSpec_get_required_resource tspec i
                else dynamic_resources state i)\<rparr>)"

section \<open>The algorithm\<close>

definition TaskQueueEntry_init :: "TaskSpec \<Rightarrow> int64 \<Rightarrow> TaskQueueEntry" where
  "TaskQueueEntry_init tspec tsize = \<lparr>spec = tspec, task_spec_size = tsize\<rparr>"

definition TaskQueueEntry_free :: "LocalSchedulerState \<Rightarrow> TaskQueueEntry \<Rightarrow> LocalSchedulerState" where
  "TaskQueueEntry_free state entry = record_call (Free_TaskSpec (spec entry)) state"

definition SchedulingAlgorithmState_init :: SchedulingAlgorithmState where
  "SchedulingAlgorithmState_init =
     \<lparr>waiting_task_queue = [], dispatch_task_queue = [], local_actor_infos = Map.empty,
      cached_submitted_actor_tasks = [], cached_submitted_actor_task_sizes = [],
      available_workers = [], executing_workers = [], blocked_workers = [],
      local_objects = Map.empty, remote_objects = [], next_node = 0\<rparr>"

subsection \<open>Worker vectors\<close>

definition worker_in_vector :: "nat list \<Rightarrow> nat \<Rightarrow> bool" where
  "worker_in_vector worker_vector w = (w \<in> set worker_vector)"

text \<open>\<^verbatim>\<open>std::find\<close>: the position of the first occurrence, the length when there is none.\<close>

fun std_find :: "nat list \<Rightarrow> nat \<Rightarrow> nat" where
  "std_find [] w = 0"
| "std_find (x # xs) w = (if x = w then 0 else Suc (std_find xs w))"

text \<open>The found element is swapped with the back and the back is popped.\<close>

definition remove_worker_from_vector :: "nat list \<Rightarrow> nat \<Rightarrow> bool \<times> nat list" where
  "remove_worker_from_vector worker_vector w =
     (let it = std_find worker_vector w;
          remove_worker = (it \<noteq> length worker_vector)
      in if remove_worker
         then (True, butlast (worker_vector[it := last worker_vector]))
         else (False, worker_vector))"

subsection \<open>Dispatch of regular tasks\<close>

definition resources_available :: "LocalSchedulerState \<Rightarrow> bool" where
  "resources_available state =
     list_ex (\<lambda>i. 0 < dynamic_resources state i) [0..<ResourceIndex_MAX]"

definition task_satisfied :: "LocalSchedulerState \<Rightarrow> TaskSpec \<Rightarrow> bool" where
  "task_satisfied state tspec =
     list_all (\<lambda>i. \<not> dynamic_resources state i < TaskSpec_get_required_resource tspec i)
       [0..<ResourceIndex_MAX]"

text \<open>
  The loop of \<^verbatim>\<open>dispatch_tasks\<close>.  \<open>skipped\<close> holds the entries before the iterator (all left
  in place), the last argument the entries from the iterator on; the queue is their
  concatenation throughout.
\<close>

fun dispatch_tasks_loop ::
  "LocalSchedulerState \<Rightarrow> SchedulingAlgorithmState \<Rightarrow> TaskQueueEntry list \<Rightarrow> TaskQueueEntry list
     \<Rightarrow> LocalSchedulerState \<times> SchedulingAlgorithmState" where
  "dispatch_tasks_loop state algorithm_state skipped [] = (state, algorithm_state)"
| "dispatch_tasks_loop state algorithm_state skipped (task # rest) =
     (if available_workers algorithm_state = []
      then ((if child_pids state = [] then record_call (Start_worker NIL_ACTOR_ID) state else state),
            algorithm_state)
      else if \<not> resources_available state then (state, algorithm_state)
      else if \<not> task_satisfied state (spec task)
      then dispatch_tasks_loop state algorithm_state (skipped @ [task]) rest
      else
        let w = last (available_workers algorithm_state);
            state1 = assign_task_to_worker state (spec task) (task_spec_size task) (Some w);
            algorithm_state1 = algorithm_state
              \<lparr>available_workers := butlast (available_workers algorithm_state),
               executing_workers := executing_workers algorithm_state @ [w]\<rparr>;
            state2 = record_call (Print_resource_info (spec task)) state1;
            state3 = TaskQueueEntry_free state2 task
        in dispatch_tasks_loop state3
             (algorithm_state1\<lparr>dispatch_task_queue := skipped @ rest\<rparr>) skipped rest)"

definition dispatch_tasks ::
  "LocalSchedulerState \<Rightarrow> SchedulingAlgorithmState \<Rightarrow> LocalSchedulerState \<times> SchedulingAlgorithmState" where
  "dispatch_tasks state algorithm_state =
     dispatch_tasks_loop state algorithm_state [] (dispatch_task_queue algorithm_state)"

subsection \<open>Worker events\<close>

definition handle_worker_available ::
  "LocalSchedulerState \<Rightarrow> SchedulingAlgorithmState \<Rightarrow> LocalSchedulerClient
     \<Rightarrow> (LocalSchedulerState \<times> SchedulingAlgorithmState) result" where
  "handle_worker_available state algorithm_state client =
     CHECK (task_in_progress client = None) ''worker->task_in_progress == NULL''
    (DCHECK (\<not> worker_in_vector (available_workers algorithm_state) (client_ptr client))
       ''!worker_in_vector(algorithm_state->available_workers, worker)''
    (DCHECK (\<not> worker_in_vector (blocked_workers algorithm_state) (client_ptr client))
       ''!worker_in_vector(algorithm_state->blocked_workers, worker)''
    (let executing = snd (remove_worker_from_vector (executing_workers algorithm_state) (client_ptr client))
     in DCHECK (\<not> worker_in_vector executing (client_ptr client))
          ''!worker_in_vector(algorithm_state->executing_workers, worker)''
       (Inr (dispatch_tasks state
          (algorithm_state\<lparr>executing_workers := executing,
             available_workers := available_workers algorithm_state @ [client_ptr client]\<rparr>))))))"

definition handle_worker_removed ::
  "LocalSchedulerState \<Rightarrow> SchedulingAlgorithmState \<Rightarrow> LocalSchedulerClient
     \<Rightarrow> (LocalSchedulerState \<times> SchedulingAlgorithmState) result" where
  "handle_worker_removed state algorithm_state client =
     CHECK (client_actor_id client = NIL_ACTOR_ID) ''ActorID_equal(worker->actor_id, NIL_ACTOR_ID)''
    (let (removed_from_available, available) =
           remove_worker_from_vector (available_workers algorithm_state) (client_ptr client)
     in DCHECK (\<not> worker_in_vector available (client_ptr client))
          ''!worker_in_vector(algorithm_state->available_workers, worker)''
    (let (removed_from_executing, executing) =
           remove_worker_from_vector (executing_workers algorithm_state) (client_ptr client)
     in DCHECK (\<not> worker_in_vector executing (client_ptr client))
          ''!worker_in_vector(algorithm_state->executing_workers, worker)''
    (let (removed_from_blocked, blocked) =
           remove_worker_from_vector (blocked_workers algorithm_state) (client_ptr client);
         num_times_removed = of_bool removed_from_available + of_bool removed_from_executing
           + (of_bool removed_from_blocked :: nat)
     in DCHECK (\<not> worker_in_vector blocked (client_ptr client))
          ''!worker_in_vector(algorithm_state->blocked_workers, worker)''
       (CHECK (num_times_removed \<le> 1) ''num_times_removed <= 1''
       (Inr (state, algorithm_state\<lparr>available_workers := available,
               executing_workers := executing, blocked_workers := blocked\<rparr>))))))"

definition handle_worker_blocked ::
  "LocalSchedulerState \<Rightarrow> SchedulingAlgorithmState \<Rightarrow> LocalSchedulerClient
     \<Rightarrow> (LocalSchedulerState \<times> SchedulingAlgorithmState) result" where
  "handle_worker_blocked state algorithm_state client =
     (let (removed, executing) =
            remove_worker_from_vector (executing_workers algorithm_state) (client_ptr client)
      in CHECK removed ''remove_worker_from_vector(algorithm_state->executing_workers, worker)''
        (DCHECK (\<not> worker_in_vector (blocked_workers algorithm_state) (client_ptr client))
           ''!worker_in_vector(algorithm_state->blocked_workers, worker)''
        (Inr (dispatch_tasks state
           (algorithm_state\<lparr>executing_workers := executing,
              blocked_workers := blocked_workers algorithm_state @ [client_ptr client]\<rparr>)))))"

definition handle_worker_unblocked ::
  "LocalSchedulerState \<Rightarrow> SchedulingAlgorithmState \<Rightarrow> LocalSchedulerClient
     \<Rightarrow> (LocalSchedulerState \<times> SchedulingAlgorithmState) result" where
  "handle_worker_unblocked state algorithm_state client =
     (let (removed, blocked) =
            remove_worker_from_vector (blocked_workers algorithm_state) (client_ptr client)
      in CHECK removed ''remove_worker_from_vector(algorithm_state->blocked_workers, worker)''
        (DCHECK (\<not> worker_in_vector (executing_workers algorithm_state) (client_ptr client))
           ''!worker_in_vector(algorithm_state->executing_workers, worker)''
        (Inr (state, algorithm_state\<lparr>blocked_workers := blocked,
                executing_workers := executing_workers algorithm_state @ [client_ptr client]\<rparr>))))"

subsection \<open>Sequencing of fallible steps\<close>

definition and_then :: "'a result \<Rightarrow> ('a \<Rightarrow> 'b result) \<Rightarrow> 'b result" where
  "and_then r f = (case r of Inl e \<Rightarrow> Inl e | Inr x \<Rightarrow> f x)"

subsection \<open>Actors\<close>

definition create_actor ::
  "SchedulingAlgorithmState \<Rightarrow> ActorID \<Rightarrow> nat option \<Rightarrow> SchedulingAlgorithmState result" where
  "create_actor algorithm_state aid w =
     (let entry = \<lparr>actor_id = aid, task_counter = 0, task_queue = [], worker = w,
                   worker_available = False\<rparr>
      in CHECK (local_actor_infos algorithm_state aid = None)
           ''algorithm_state->local_actor_infos.count(actor_id) == 0''
           (Inr (algorithm_state\<lparr>local_actor_infos :=
                   (local_actor_infos algorithm_state)(aid \<mapsto> entry)\<rparr>)))"

definition remove_actor ::
  "LocalSchedulerState \<Rightarrow> SchedulingAlgorithmState \<Rightarrow> ActorID
     \<Rightarrow> (LocalSchedulerState \<times> SchedulingAlgorithmState) result" where
  "remove_actor state algorithm_state aid =
     (case local_actor_infos algorithm_state aid of
        None \<Rightarrow> Inl (Check_failure ''algorithm_state->local_actor_infos.count(actor_id) == 1'')
      | Some entry \<Rightarrow>
          let state1 = (if length (task_queue entry) > 0
                        then record_call (Log_warn ''Removing actor with remaining tasks.'') state
                        else state);
              state2 = fold (\<lambda>task st. TaskQueueEntry_free st task) (task_queue entry) state1
          in Inr (state2, algorithm_state\<lparr>local_actor_infos :=
                    (local_actor_infos algorithm_state)(aid := None)\<rparr>))"

text \<open>
  \<^verbatim>\<open>entry.task_counter += 1\<close> is on a signed 64-bit integer; it is a word addition here
  (the two's complement result).  The comparisons of counters are signed.
\<close>

definition dispatch_actor_task ::
  "LocalSchedulerState \<Rightarrow> SchedulingAlgorithmState \<Rightarrow> ActorID
     \<Rightarrow> (bool \<times> LocalSchedulerState \<times> SchedulingAlgorithmState) result" where
  "dispatch_actor_task state algorithm_state aid =
     CHECK (aid \<noteq> NIL_ACTOR_ID) ''!ActorID_equal(actor_id, NIL_ACTOR_ID)''
    (case actor_mapping state aid of
       None \<Rightarrow> Inl (Check_failure ''state->actor_mapping.count(actor_id) == 1'')
     | Some mapping \<Rightarrow>
    CHECK (local_scheduler_id mapping = db_client_id state)
      ''DBClientID_equal(state->actor_mapping[actor_id].local_scheduler_id, get_db_client_id(state->db))''
    (case local_actor_infos algorithm_state aid of
       None \<Rightarrow> Inl (Check_failure ''algorithm_state->local_actor_infos.count(actor_id) != 0'')
     | Some entry \<Rightarrow>
    (case task_queue entry of
       [] \<Rightarrow> Inr (False, state, algorithm_state)
     | first_task # rest \<Rightarrow>
         let next_task_counter = TaskSpec_actor_counter (spec first_task)
         in if next_task_counter \<noteq> task_counter entry
            then CHECK (word_sless (task_counter entry) next_task_counter)
                   ''next_task_counter > entry.task_counter''
                   (Inr (False, state, algorithm_state))
            else if \<not> worker_available entry then Inr (False, state, algorithm_state)
            else
              let state1 = assign_task_to_worker state (spec first_task)
                             (task_spec_size first_task) (worker entry);
                  state2 = TaskQueueEntry_free state1 first_task;
                  entry1 = entry\<lparr>task_counter := task_counter entry + 1,
                                 worker_available := False, task_queue := rest\<rparr>
              in Inr (True, state2, algorithm_state\<lparr>local_actor_infos :=
                        (local_actor_infos algorithm_state)(aid \<mapsto> entry1)\<rparr>))))"

definition handle_actor_worker_connect ::
  "LocalSchedulerState \<Rightarrow> SchedulingAlgorithmState \<Rightarrow> ActorID \<Rightarrow> LocalSchedulerClient
     \<Rightarrow> (LocalSchedulerState \<times> SchedulingAlgorithmState) result" where
  "handle_actor_worker_connect state algorithm_state aid client =
     and_then
       (case local_actor_infos algorithm_state aid of
          None \<Rightarrow> create_actor algorithm_state aid (Some (client_ptr client))
        | Some entry \<Rightarrow>
            Inr (algorithm_state\<lparr>local_actor_infos :=
                   (local_actor_infos algorithm_state)(aid \<mapsto> entry\<lparr>worker := Some (client_ptr client)\<rparr>)\<rparr>))
       (\<lambda>algorithm_state1.
          and_then (dispatch_actor_task state algorithm_state1 aid)
            (\<lambda>(dispatched, state2, algorithm_state2). Inr (state2, algorithm_state2)))"

definition handle_actor_worker_disconnect ::
  "LocalSchedulerState \<Rightarrow> SchedulingAlgorithmState \<Rightarrow> ActorID
     \<Rightarrow> (LocalSchedulerState \<times> SchedulingAlgorithmState) result" where
  "handle_actor_worker_disconnect state algorithm_state aid = remove_actor state algorithm_state aid"

text \<open>The fragment "Update the task table" that \<^verbatim>\<open>add_task_to_actor_queue\<close> and
  \<^verbatim>\<open>queue_task\<close> both contain.\<close>

definition update_task_table ::
  "LocalSchedulerState \<Rightarrow> TaskSpec \<Rightarrow> int64 \<Rightarrow> bool \<Rightarrow> LocalSchedulerState" where
  "update_task_table state tspec tsize from_global_scheduler =
     (if db_connected state
      then let task = Task_alloc tspec tsize TASK_STATUS_QUEUED (db_client_id state)
           in if from_global_scheduler
              then record_call (Task_table_update task) state
              else record_call (Task_table_add_task task) state
      else state)"

text \<open>The insertion loop of \<^verbatim>\<open>add_task_to_actor_queue\<close>: the iterator advances while the
  new counter is greater than the counter it points to.\<close>

fun insert_actor_task :: "int64 \<Rightarrow> TaskQueueEntry \<Rightarrow> TaskQueueEntry list \<Rightarrow> TaskQueueEntry list" where
  "insert_actor_task counter elt [] = [elt]"
| "insert_actor_task counter elt (x # xs) =
     (if word_sless (TaskSpec_actor_counter (spec x)) counter
      then x # insert_actor_task counter elt xs
      else elt # x # xs)"

definition add_task_to_actor_queue ::
  "LocalSchedulerState \<Rightarrow> SchedulingAlgorithmState \<Rightarrow> TaskSpec \<Rightarrow> int64 \<Rightarrow> bool
     \<Rightarrow> (LocalSchedulerState \<times> SchedulingAlgorithmState) result" where
  "add_task_to_actor_queue state algorithm_state tspec tsize from_global_scheduler =
     (let aid = TaskSpec_actor_id tspec
      in DCHECK (aid \<noteq> NIL_ACTOR_ID) ''!ActorID_equal(actor_id, NIL_ACTOR_ID)''
        (and_then
          (if local_actor_infos algorithm_state aid = None
           then and_then (create_actor algorithm_state aid None)
                  (\<lambda>algorithm_state1.
                     CHECK (local_actor_infos algorithm_state1 aid \<noteq> None)
                       ''algorithm_state->local_actor_infos.count(actor_id) == 1''
                       (Inr algorithm_state1))
           else Inr algorithm_state)
          (\<lambda>algorithm_state1.
             case local_actor_infos algorithm_state1 aid of
               None \<Rightarrow> Inl (Undefined_behaviour ''local_actor_infos.find(actor_id) is end()'')
             | Some entry \<Rightarrow>
                 let counter = TaskSpec_actor_counter tspec
                 in CHECK (word_sle (task_counter entry) counter)
                      ''task_counter >= entry.task_counter''
                   (let elt = TaskQueueEntry_init tspec tsize;
                        entry1 = entry\<lparr>task_queue := insert_actor_task counter elt (task_queue entry)\<rparr>
                    in Inr (update_task_table state tspec tsize from_global_scheduler,
                            algorithm_state1\<lparr>local_actor_infos :=
                              (local_actor_infos algorithm_state1)(aid \<mapsto> entry1)\<rparr>)))))"

subsection \<open>Dependencies\<close>

text \<open>\<^verbatim>\<open>remote_objects[obj_id]\<close> is created when absent (with one immediate fetch when the
  object store is connected), then the cursor is appended to its dependent tasks.\<close>

definition fetch_missing_dependency ::
  "LocalSchedulerState \<Rightarrow> SchedulingAlgorithmState \<Rightarrow> nat \<Rightarrow> ObjectID
     \<Rightarrow> LocalSchedulerState \<times> SchedulingAlgorithmState" where
  "fetch_missing_dependency state algorithm_state task_entry_it oid =
     (case map_of (remote_objects algorithm_state) oid of
        None \<Rightarrow>
          ((if plasma_connected state then record_call (Plasma_fetch [oid]) state else state),
           algorithm_state\<lparr>remote_objects :=
             AList.update oid \<lparr>object_id = oid, dependent_tasks = [task_entry_it]\<rparr>
               (remote_objects algorithm_state)\<rparr>)
      | Some entry \<Rightarrow>
          (state,
           algorithm_state\<lparr>remote_objects :=
             AList.update oid (entry\<lparr>dependent_tasks := dependent_tasks entry @ [task_entry_it]\<rparr>)
               (remote_objects algorithm_state)\<rparr>))"

fun fetch_missing_dependencies_loop ::
  "LocalSchedulerState \<Rightarrow> SchedulingAlgorithmState \<Rightarrow> nat \<Rightarrow> task_arg list \<Rightarrow> nat
     \<Rightarrow> LocalSchedulerState \<times> SchedulingAlgorithmState \<times> nat" where
  "fetch_missing_dependencies_loop state algorithm_state task_entry_it [] num_missing =
     (state, algorithm_state, num_missing)"
| "fetch_missing_dependencies_loop state algorithm_state task_entry_it (ArgByVal v # rest) num_missing =
     fetch_missing_dependencies_loop state algorithm_state task_entry_it rest num_missing"
| "fetch_missing_dependencies_loop state algorithm_state task_entry_it (ArgByRef oid # rest) num_missing =
     (if local_objects algorithm_state oid = None
      then (case fetch_missing_dependency state algorithm_state task_entry_it oid of
              (state1, algorithm_state1) \<Rightarrow>
                fetch_missing_dependencies_loop state1 algorithm_state1 task_entry_it rest
                  (Suc num_missing))
      else fetch_missing_dependencies_loop state algorithm_state task_entry_it rest num_missing)"

definition fetch_missing_dependencies ::
  "LocalSchedulerState \<Rightarrow> SchedulingAlgorithmState \<Rightarrow> nat
     \<Rightarrow> (LocalSchedulerState \<times> SchedulingAlgorithmState) result" where
  "fetch_missing_dependencies state algorithm_state task_entry_it =
     (case map_of (waiting_task_queue algorithm_state) task_entry_it of
        None \<Rightarrow> Inl (Undefined_behaviour ''dereference of an invalid waiting-queue iterator'')
      | Some task_entry \<Rightarrow>
          (case fetch_missing_dependencies_loop state algorithm_state task_entry_it
                  (TaskSpec_args (spec task_entry)) 0 of
             (state1, algorithm_state1, num_missing_dependencies) \<Rightarrow>
               CHECK (num_missing_dependencies > 0) ''num_missing_dependencies > 0''
                 (Inr (state1, algorithm_state1))))"

definition can_run :: "SchedulingAlgorithmState \<Rightarrow> TaskSpec \<Rightarrow> bool" where
  "can_run algorithm_state task =
     list_all (\<lambda>arg. case arg of ArgByRef oid \<Rightarrow> local_objects algorithm_state oid \<noteq> None
                               | ArgByVal v \<Rightarrow> True)
       (TaskSpec_args task)"

text \<open>The timer's return value (the constant timeout) is not modelled.\<close>

definition fetch_object_timeout_handler ::
  "LocalSchedulerState \<Rightarrow> SchedulingAlgorithmState \<Rightarrow> LocalSchedulerState \<times> SchedulingAlgorithmState" where
  "fetch_object_timeout_handler state algorithm_state =
     (if \<not> plasma_connected state
      then (record_call (Log_info ''Local scheduler is not connected to a object store manager'') state,
            algorithm_state)
      else
        let object_ids = map (\<lambda>(k, entry). object_id entry) (remote_objects algorithm_state);
            state1 = record_call (Plasma_fetch object_ids) state
        in (fold (\<lambda>oid st. record_call (Reconstruct_object oid) st) object_ids state1,
            algorithm_state))"

subsection \<open>Queueing\<close>

text \<open>
  \<^verbatim>\<open>queue_task\<close> pushes the entry on the queue it is given by pointer and returns the
  iterator of the new node; the two queues have different representations here, so the
  push is written at its two call sites and \<open>queue_task\<close> is the rest, the write to the
  task table.
\<close>

definition queue_task ::
  "LocalSchedulerState \<Rightarrow> TaskQueueEntry \<Rightarrow> bool \<Rightarrow> LocalSchedulerState" where
  "queue_task state task_entry from_global_scheduler =
     update_task_table state (spec task_entry) (task_spec_size task_entry) from_global_scheduler"

definition queue_waiting_task ::
  "LocalSchedulerState \<Rightarrow> SchedulingAlgorithmState \<Rightarrow> TaskSpec \<Rightarrow> int64 \<Rightarrow> bool
     \<Rightarrow> (LocalSchedulerState \<times> SchedulingAlgorithmState) result" where
  "queue_waiting_task state algorithm_state tspec tsize from_global_scheduler =
     (let task_entry = TaskQueueEntry_init tspec tsize;
          it = next_node algorithm_state;
          algorithm_state1 = algorithm_state
            \<lparr>waiting_task_queue := waiting_task_queue algorithm_state @ [(it, task_entry)],
             next_node := Suc it\<rparr>;
          state1 = queue_task state task_entry from_global_scheduler
      in fetch_missing_dependencies state1 algorithm_state1 it)"

definition queue_dispatch_task ::
  "LocalSchedulerState \<Rightarrow> SchedulingAlgorithmState \<Rightarrow> TaskSpec \<Rightarrow> int64 \<Rightarrow> bool
     \<Rightarrow> LocalSchedulerState \<times> SchedulingAlgorithmState" where
  "queue_dispatch_task state algorithm_state tspec tsize from_global_scheduler =
     (let task_entry = TaskQueueEntry_init tspec tsize
      in (queue_task state task_entry from_global_scheduler,
          algorithm_state\<lparr>dispatch_task_queue :=
            dispatch_task_queue algorithm_state @ [task_entry]\<rparr>))"

definition queue_task_locally ::
  "LocalSchedulerState \<Rightarrow> SchedulingAlgorithmState \<Rightarrow> TaskSpec \<Rightarrow> int64 \<Rightarrow> bool
     \<Rightarrow> (LocalSchedulerState \<times> SchedulingAlgorithmState) result" where
  "queue_task_locally state algorithm_state tspec tsize from_global_scheduler =
     (if can_run algorithm_state tspec
      then Inr (queue_dispatch_task state algorithm_state tspec tsize from_global_scheduler)
      else queue_waiting_task state algorithm_state tspec tsize from_global_scheduler)"

definition give_task_to_local_scheduler ::
  "LocalSchedulerState \<Rightarrow> SchedulingAlgorithmState \<Rightarrow> TaskSpec \<Rightarrow> int64 \<Rightarrow> DBClientID
     \<Rightarrow> (LocalSchedulerState \<times> SchedulingAlgorithmState) result" where
  "give_task_to_local_scheduler state algorithm_state tspec tsize scheduler_id =
     (let state1 = (if scheduler_id = db_client_id state
                    then record_call (Log_warn ''Local scheduler is trying to assign a task to itself.'') state
                    else state)
      in CHECK (db_connected state) ''state->db != NULL''
        (DCHECK (global_scheduler_exists state) ''state->config.global_scheduler_exists''
        (Inr (record_call (Task_table_add_task (Task_alloc tspec tsize TASK_STATUS_SCHEDULED scheduler_id))
                state1,
              algorithm_state))))"

definition give_task_to_global_scheduler ::
  "LocalSchedulerState \<Rightarrow> SchedulingAlgorithmState \<Rightarrow> TaskSpec \<Rightarrow> int64
     \<Rightarrow> (LocalSchedulerState \<times> SchedulingAlgorithmState) result" where
  "give_task_to_global_scheduler state algorithm_state tspec tsize =
     (if \<not> db_connected state \<or> \<not> global_scheduler_exists state
      then queue_task_locally state algorithm_state tspec tsize False
      else DCHECK (global_scheduler_exists state) ''state->config.global_scheduler_exists''
          (DCHECK (db_connected state) ''state->db != NULL''
          (Inr (record_call (Task_table_add_task (Task_alloc tspec tsize TASK_STATUS_WAITING NIL_ID)) state,
                algorithm_state))))"

definition resource_constraints_satisfied :: "LocalSchedulerState \<Rightarrow> TaskSpec \<Rightarrow> bool" where
  "resource_constraints_satisfied state tspec =
     list_all (\<lambda>i. \<not> (static_resources state i < TaskSpec_get_required_resource tspec i
                      \<or> dynamic_resources state i < TaskSpec_get_required_resource tspec i))
       [0..<ResourceIndex_MAX]"

subsection \<open>Task events\<close>

definition handle_task_submitted ::
  "LocalSchedulerState \<Rightarrow> SchedulingAlgorithmState \<Rightarrow> TaskSpec \<Rightarrow> int64
     \<Rightarrow> (LocalSchedulerState \<times> SchedulingAlgorithmState) result" where
  "handle_task_submitted state algorithm_state tspec tsize =
     and_then
       (if resource_constraints_satisfied state tspec
           \<and> length (available_workers algorithm_state) > 0
           \<and> can_run algorithm_state tspec
        then Inr (queue_dispatch_task state algorithm_state tspec tsize False)
        else give_task_to_global_scheduler state algorithm_state tspec tsize)
       (\<lambda>(state1, algorithm_state1). Inr (dispatch_tasks state1 algorithm_state1))"

definition handle_actor_task_submitted ::
  "LocalSchedulerState \<Rightarrow> SchedulingAlgorithmState \<Rightarrow> TaskSpec \<Rightarrow> int64
     \<Rightarrow> (LocalSchedulerState \<times> SchedulingAlgorithmState) result" where
  "handle_actor_task_submitted state algorithm_state tspec tsize =
     (let aid = TaskSpec_actor_id tspec
      in CHECK (aid \<noteq> NIL_ACTOR_ID) ''!ActorID_equal(actor_id, NIL_ACTOR_ID)''
        (case actor_mapping state aid of
           None \<Rightarrow>
             Inr (state, algorithm_state
               \<lparr>cached_submitted_actor_tasks :=
                  cached_submitted_actor_tasks algorithm_state @ [tspec],
                cached_submitted_actor_task_sizes :=
                  cached_submitted_actor_task_sizes algorithm_state @ [tsize]\<rparr>)
         | Some mapping \<Rightarrow>
             if local_scheduler_id mapping = db_client_id state
             then and_then (add_task_to_actor_queue state algorithm_state tspec tsize False)
                    (\<lambda>(state1, algorithm_state1).
                       and_then (dispatch_actor_task state1 algorithm_state1 aid)
                         (\<lambda>(dispatched, state2, algorithm_state2). Inr (state2, algorithm_state2)))
             else give_task_to_local_scheduler state algorithm_state tspec tsize
                    (local_scheduler_id mapping)))"

text \<open>
  The loop of \<^verbatim>\<open>handle_actor_creation_notification\<close>: \<open>i\<close> is the index, the second argument
  the number of iterations left.  Each iteration reads element \<open>i\<close> of the arrays as they
  are then; \<^verbatim>\<open>utarray_eltptr\<close> is null past the end of the array.
\<close>

fun resubmit_cached_loop ::
  "nat \<Rightarrow> nat \<Rightarrow> LocalSchedulerState \<Rightarrow> SchedulingAlgorithmState
     \<Rightarrow> (LocalSchedulerState \<times> SchedulingAlgorithmState) result" where
  "resubmit_cached_loop i 0 state algorithm_state = Inr (state, algorithm_state)"
| "resubmit_cached_loop i (Suc left) state algorithm_state =
     (if i < length (cached_submitted_actor_tasks algorithm_state)
         \<and> i < length (cached_submitted_actor_task_sizes algorithm_state)
      then and_then
             (handle_actor_task_submitted state algorithm_state
                (cached_submitted_actor_tasks algorithm_state ! i)
                (cached_submitted_actor_task_sizes algorithm_state ! i))
             (\<lambda>(state1, algorithm_state1). resubmit_cached_loop (Suc i) left state1 algorithm_state1)
      else Inl (Undefined_behaviour ''dereference of a null utarray_eltptr''))"

text \<open>\<^verbatim>\<open>utarray_erase(a, pos, len)\<close> removes \<open>len\<close> elements from position \<open>pos\<close>.\<close>

definition utarray_erase :: "'a list \<Rightarrow> nat \<Rightarrow> nat \<Rightarrow> 'a list" where
  "utarray_erase a pos len = take pos a @ drop (pos + len) a"

definition handle_actor_creation_notification ::
  "LocalSchedulerState \<Rightarrow> SchedulingAlgorithmState \<Rightarrow> ActorID
     \<Rightarrow> (LocalSchedulerState \<times> SchedulingAlgorithmState) result" where
  "handle_actor_creation_notification state algorithm_state aid =
     (let num_cached_actor_tasks = length (cached_submitted_actor_tasks algorithm_state)
      in CHECK (num_cached_actor_tasks = length (cached_submitted_actor_task_sizes algorithm_state))
           ''num_cached_actor_tasks == utarray_len(algorithm_state->cached_submitted_actor_task_sizes)''
        (and_then (resubmit_cached_loop 0 num_cached_actor_tasks state algorithm_state)
           (\<lambda>(state1, algorithm_state1).
              Inr (state1, algorithm_state1
                \<lparr>cached_submitted_actor_tasks :=
                   utarray_erase (cached_submitted_actor_tasks algorithm_state1) 0 num_cached_actor_tasks,
                 cached_submitted_actor_task_sizes :=
                   utarray_erase (cached_submitted_actor_task_sizes algorithm_state1) 0
                     num_cached_actor_tasks\<rparr>))))"

definition handle_task_scheduled ::
  "LocalSchedulerState \<Rightarrow> SchedulingAlgorithmState \<Rightarrow> TaskSpec \<Rightarrow> int64
     \<Rightarrow> (LocalSchedulerState \<times> SchedulingAlgorithmState) result" where
  "handle_task_scheduled state algorithm_state tspec tsize =
     DCHECK (db_connected state) ''state->db != NULL''
    (DCHECK (global_scheduler_exists state) ''state->config.global_scheduler_exists''
    (and_then (queue_task_locally state algorithm_state tspec tsize True)
       (\<lambda>(state1, algorithm_state1). Inr (dispatch_tasks state1 algorithm_state1))))"

definition handle_actor_task_scheduled ::
  "LocalSchedulerState \<Rightarrow> SchedulingAlgorithmState \<Rightarrow> TaskSpec \<Rightarrow> int64
     \<Rightarrow> (LocalSchedulerState \<times> SchedulingAlgorithmState) result" where
  "handle_actor_task_scheduled state algorithm_state tspec tsize =
     DCHECK (db_connected state) ''state->db != NULL''
    (DCHECK (global_scheduler_exists state) ''state->config.global_scheduler_exists''
    (let aid = TaskSpec_actor_id tspec
     in DCHECK (aid \<noteq> NIL_ACTOR_ID) ''!ActorID_equal(actor_id, NIL_ACTOR_ID)''
       (and_then
         (case actor_mapping state aid of
            Some mapping \<Rightarrow>
              DCHECK (local_scheduler_id mapping = db_client_id state)
                ''DBClientID_equal(state->actor_mapping[actor_id].local_scheduler_id, get_db_client_id(state->db))''
                (Inr state)
          | None \<Rightarrow>
              Inr (record_call (Log_info ''handle_actor_task_scheduled called on local scheduler but the corresponding actor_map_entry is not present. This should be rare.'') state))
         (\<lambda>state1.
            and_then (add_task_to_actor_queue state1 algorithm_state tspec tsize True)
              (\<lambda>(state2, algorithm_state2).
                 and_then (dispatch_actor_task state2 algorithm_state2 aid)
                   (\<lambda>(dispatched, state3, algorithm_state3). Inr (state3, algorithm_state3)))))))"

definition handle_actor_worker_available ::
  "LocalSchedulerState \<Rightarrow> SchedulingAlgorithmState \<Rightarrow> LocalSchedulerClient
     \<Rightarrow> (LocalSchedulerState \<times> SchedulingAlgorithmState) result" where
  "handle_actor_worker_available state algorithm_state client =
     (let aid = client_actor_id client
      in CHECK (aid \<noteq> NIL_ACTOR_ID) ''!ActorID_equal(actor_id, NIL_ACTOR_ID)''
        (case local_actor_infos algorithm_state aid of
           None \<Rightarrow> Inl (Check_failure ''algorithm_state->local_actor_infos.count(actor_id) == 1'')
         | Some entry \<Rightarrow>
             CHECK (Some (client_ptr client) = worker entry) ''worker == entry.worker''
            (CHECK (\<not> worker_available entry) ''!entry.worker_available''
            (and_then
               (dispatch_actor_task state
                  (algorithm_state\<lparr>local_actor_infos :=
                     (local_actor_infos algorithm_state)(aid \<mapsto> entry\<lparr>worker_available := True\<rparr>)\<rparr>)
                  aid)
               (\<lambda>(dispatched, state1, algorithm_state1). Inr (state1, algorithm_state1))))))"

subsection \<open>Object events\<close>

text \<open>
  The loop of \<^verbatim>\<open>handle_object_available\<close> over the dependent cursors.  Reading a cursor
  whose node has been erased from the waiting queue is undefined behaviour.
\<close>

fun move_dependent_tasks ::
  "SchedulingAlgorithmState \<Rightarrow> nat list \<Rightarrow> SchedulingAlgorithmState result" where
  "move_dependent_tasks algorithm_state [] = Inr algorithm_state"
| "move_dependent_tasks algorithm_state (it # its) =
     (case map_of (waiting_task_queue algorithm_state) it of
        None \<Rightarrow> Inl (Undefined_behaviour ''dereference of an erased waiting-queue iterator'')
      | Some task \<Rightarrow>
          if can_run algorithm_state (spec task)
          then move_dependent_tasks
                 (algorithm_state
                    \<lparr>dispatch_task_queue := dispatch_task_queue algorithm_state @ [task],
                     waiting_task_queue := AList.delete it (waiting_task_queue algorithm_state)\<rparr>)
                 its
          else move_dependent_tasks algorithm_state its)"

text \<open>
  The entry stored in \<^verbatim>\<open>local_objects\<close> is a copy of the local variable \<^verbatim>\<open>entry\<close>; the
  final \<^verbatim>\<open>entry.dependent_tasks.clear()\<close> acts on the local variable alone and leaves no
  trace in the state.
\<close>

definition handle_object_available ::
  "LocalSchedulerState \<Rightarrow> SchedulingAlgorithmState \<Rightarrow> ObjectID
     \<Rightarrow> (LocalSchedulerState \<times> SchedulingAlgorithmState) result" where
  "handle_object_available state algorithm_state oid =
     (let (entry, remote) =
            (case map_of (remote_objects algorithm_state) oid of
               Some found \<Rightarrow> (found, AList.delete oid (remote_objects algorithm_state))
             | None \<Rightarrow> (\<lparr>object_id = oid, dependent_tasks = []\<rparr>, remote_objects algorithm_state))
      in CHECK (local_objects algorithm_state oid = None)
           ''algorithm_state->local_objects.count(object_id) == 0''
        (let algorithm_state1 = algorithm_state
               \<lparr>remote_objects := remote,
                local_objects := (local_objects algorithm_state)(oid \<mapsto> entry)\<rparr>
         in if dependent_tasks entry \<noteq> []
            then and_then (move_dependent_tasks algorithm_state1 (dependent_tasks entry))
                   (\<lambda>algorithm_state2. Inr (dispatch_tasks state algorithm_state2))
            else Inr (state, algorithm_state1)))"

text \<open>First loop of \<^verbatim>\<open>handle_object_removed\<close>: the dependent tasks of the dispatch queue go
  to the tail of the waiting queue, each into a new node.\<close>

fun requeue_dependent_loop ::
  "SchedulingAlgorithmState \<Rightarrow> ObjectID \<Rightarrow> TaskQueueEntry list \<Rightarrow> TaskQueueEntry list
     \<Rightarrow> SchedulingAlgorithmState" where
  "requeue_dependent_loop algorithm_state oid kept [] = algorithm_state"
| "requeue_dependent_loop algorithm_state oid kept (task # rest) =
     (if TaskSpec_is_dependent_on (spec task) oid
      then requeue_dependent_loop
             (algorithm_state
                \<lparr>waiting_task_queue :=
                   waiting_task_queue algorithm_state @ [(next_node algorithm_state, task)],
                 next_node := Suc (next_node algorithm_state),
                 dispatch_task_queue := kept @ rest\<rparr>)
             oid kept rest
      else requeue_dependent_loop algorithm_state oid (kept @ [task]) rest)"

text \<open>Second loop: every by-reference argument equal to the removed object registers the
  node's cursor.\<close>

fun track_args_loop ::
  "LocalSchedulerState \<Rightarrow> SchedulingAlgorithmState \<Rightarrow> nat \<Rightarrow> ObjectID \<Rightarrow> task_arg list
     \<Rightarrow> LocalSchedulerState \<times> SchedulingAlgorithmState" where
  "track_args_loop state algorithm_state it oid [] = (state, algorithm_state)"
| "track_args_loop state algorithm_state it oid (ArgByVal v # rest) =
     track_args_loop state algorithm_state it oid rest"
| "track_args_loop state algorithm_state it oid (ArgByRef arg_id # rest) =
     (if arg_id = oid
      then (case fetch_missing_dependency state algorithm_state it oid of
              (state1, algorithm_state1) \<Rightarrow> track_args_loop state1 algorithm_state1 it oid rest)
      else track_args_loop state algorithm_state it oid rest)"

fun track_waiting_loop ::
  "LocalSchedulerState \<Rightarrow> SchedulingAlgorithmState \<Rightarrow> ObjectID \<Rightarrow> (nat \<times> TaskQueueEntry) list
     \<Rightarrow> LocalSchedulerState \<times> SchedulingAlgorithmState" where
  "track_waiting_loop state algorithm_state oid [] = (state, algorithm_state)"
| "track_waiting_loop state algorithm_state oid ((it, task) # rest) =
     (case track_args_loop state algorithm_state it oid (TaskSpec_args (spec task)) of
        (state1, algorithm_state1) \<Rightarrow> track_waiting_loop state1 algorithm_state1 oid rest)"

definition handle_object_removed ::
  "LocalSchedulerState \<Rightarrow> SchedulingAlgorithmState \<Rightarrow> ObjectID
     \<Rightarrow> (LocalSchedulerState \<times> SchedulingAlgorithmState) result" where
  "handle_object_removed state algorithm_state removed_object_id =
     CHECK (local_objects algorithm_state removed_object_id \<noteq> None)
       ''algorithm_state->local_objects.count(removed_object_id) == 1''
    (let algorithm_state1 = algorithm_state
           \<lparr>local_objects := (local_objects algorithm_state)(removed_object_id := None)\<rparr>;
         algorithm_state2 = requeue_dependent_loop algorithm_state1 removed_object_id []
           (dispatch_task_queue algorithm_state1)
     in Inr (track_waiting_loop state algorithm_state2 removed_object_id
               (waiting_task_queue algorithm_state2)))"

subsection \<open>Driver removal\<close>

fun purge_dependent_tasks ::
  "(nat \<times> TaskQueueEntry) list \<Rightarrow> WorkerID \<Rightarrow> nat list \<Rightarrow> nat list result" where
  "purge_dependent_tasks waiting driver [] = Inr []"
| "purge_dependent_tasks waiting driver (it # its) =
     (case map_of waiting it of
        None \<Rightarrow> Inl (Undefined_behaviour ''dereference of an erased waiting-queue iterator'')
      | Some task \<Rightarrow>
          and_then (purge_dependent_tasks waiting driver its)
            (\<lambda>kept. Inr (if TaskSpec_driver_id (spec task) = driver then kept else it # kept)))"

fun purge_remote_objects ::
  "(nat \<times> TaskQueueEntry) list \<Rightarrow> WorkerID \<Rightarrow> (ObjectID \<times> ObjectEntry) list
     \<Rightarrow> (ObjectID \<times> ObjectEntry) list result" where
  "purge_remote_objects waiting driver [] = Inr []"
| "purge_remote_objects waiting driver ((k, entry) # rest) =
     and_then (purge_dependent_tasks waiting driver (dependent_tasks entry))
       (\<lambda>kept. and_then (purge_remote_objects waiting driver rest)
          (\<lambda>rest1. Inr (if length kept = 0 then rest1
                         else (k, entry\<lparr>dependent_tasks := kept\<rparr>) # rest1)))"

definition handle_driver_removed ::
  "LocalSchedulerState \<Rightarrow> SchedulingAlgorithmState \<Rightarrow> WorkerID
     \<Rightarrow> (LocalSchedulerState \<times> SchedulingAlgorithmState) result" where
  "handle_driver_removed state algorithm_state driver =
     and_then
       (purge_remote_objects (waiting_task_queue algorithm_state) driver
          (remote_objects algorithm_state))
       (\<lambda>remote.
          Inr (state, algorithm_state
            \<lparr>remote_objects := remote,
             waiting_task_queue :=
               filter (\<lambda>(it, task). TaskSpec_driver_id (spec task) \<noteq> driver)
                 (waiting_task_queue algorithm_state),
             dispatch_task_queue :=
               filter (\<lambda>task. TaskSpec_driver_id (spec task) \<noteq> driver)
                 (dispatch_task_queue algorithm_state)\<rparr>))"

subsection \<open>The public surface\<close>

text \<open>The events the core handles (spec, section 6), each with the handler it runs.\<close>

datatype event =
    Task_submitted TaskSpec int64
  | Actor_task_submitted TaskSpec int64
  | Task_scheduled TaskSpec int64
  | Actor_task_scheduled TaskSpec int64
  | Actor_creation_notification ActorID
  | Worker_available LocalSchedulerClient
  | Worker_removed LocalSchedulerClient
  | Worker_blocked LocalSchedulerClient
  | Worker_unblocked LocalSchedulerClient
  | Actor_worker_available LocalSchedulerClient
  | Actor_worker_connect ActorID LocalSchedulerClient
  | Actor_worker_disconnect ActorID
  | Object_available ObjectID
  | Object_removed ObjectID
  | Driver_removed WorkerID
  | Fetch_timer_tick

fun handle_event ::
  "event \<Rightarrow> LocalSchedulerState \<Rightarrow> SchedulingAlgorithmState
     \<Rightarrow> (LocalSchedulerState \<times> SchedulingAlgorithmState) result" where
  "handle_event (Task_submitted tspec tsize) state algorithm_state =
     handle_task_submitted state algorithm_state tspec tsize"
| "handle_event (Actor_task_submitted tspec tsize) state algorithm_state =
     handle_actor_task_submitted state algorithm_state tspec tsize"
| "handle_event (Task_scheduled tspec tsize) state algorithm_state =
     handle_task_scheduled state algorithm_state tspec tsize"
| "handle_event (Actor_task_scheduled tspec tsize) state algorithm_state =
     handle_actor_task_scheduled state algorithm_state tspec tsize"
| "handle_event (Actor_creation_notification aid) state algorithm_state =
     handle_actor_creation_notification state algorithm_state aid"
| "handle_event (Worker_available client) state algorithm_state =
     handle_worker_available state algorithm_state client"
| "handle_event (Worker_removed client) state algorithm_state =
     handle_worker_removed state algorithm_state client"
| "handle_event (Worker_blocked client) state algorithm_state =
     handle_worker_blocked state algorithm_state client"
| "handle_event (Worker_unblocked client) state algorithm_state =
     handle_worker_unblocked state algorithm_state client"
| "handle_event (Actor_worker_available client) state algorithm_state =
     handle_actor_worker_available state algorithm_state client"
| "handle_event (Actor_worker_connect aid client) state algorithm_state =
     handle_actor_worker_connect state algorithm_state aid client"
| "handle_event (Actor_worker_disconnect aid) state algorithm_state =
     handle_actor_worker_disconnect state algorithm_state aid"
| "handle_event (Object_available oid) state algorithm_state =
     handle_object_available state algorithm_state oid"
| "handle_event (Object_removed oid) state algorithm_state =
     handle_object_removed state algorithm_state oid"
| "handle_event (Driver_removed driver) state algorithm_state =
     handle_driver_removed state algorithm_state driver"
| "handle_event Fetch_timer_tick state algorithm_state =
     Inr (fetch_object_timeout_handler state algorithm_state)"

text \<open>
  The reachable algorithm states: the initial one, and every state a handler returns
  from a reachable one.  The collaborator state is not constrained: each handler may
  meet any resources, actor mapping and connections.
\<close>

inductive reachable :: "SchedulingAlgorithmState \<Rightarrow> bool" where
  reachable_init: "reachable SchedulingAlgorithmState_init"
| reachable_step:
    "reachable algorithm_state
     \<Longrightarrow> handle_event ev state algorithm_state = Inr (state1, algorithm_state1)
     \<Longrightarrow> reachable algorithm_state1"

text \<open>
  The replay as the spec words it (section 4.4): the cached specs of the snapshot taken
  when the notification arrives are re-submitted in order.  It is compared below with the
  index loop of the source, which reads the arrays as they are at each iteration.
\<close>

fun resubmit_snapshot ::
  "(TaskSpec \<times> int64) list \<Rightarrow> LocalSchedulerState \<Rightarrow> SchedulingAlgorithmState
     \<Rightarrow> (LocalSchedulerState \<times> SchedulingAlgorithmState) result" where
  "resubmit_snapshot [] state algorithm_state = Inr (state, algorithm_state)"
| "resubmit_snapshot ((tspec, tsize) # rest) state algorithm_state =
     and_then (handle_actor_task_submitted state algorithm_state tspec tsize)
       (\<lambda>(state1, algorithm_state1). resubmit_snapshot rest state1 algorithm_state1)"

text \<open>The part of the algorithm state that the actor subsystem never touches.\<close>

definition same_queues :: "SchedulingAlgorithmState \<Rightarrow> SchedulingAlgorithmState \<Rightarrow> bool" where
  "same_queues a b \<longleftrightarrow>
     waiting_task_queue a = waiting_task_queue b
   \<and> dispatch_task_queue a = dispatch_task_queue b
   \<and> available_workers a = available_workers b
   \<and> executing_workers a = executing_workers b
   \<and> blocked_workers a = blocked_workers b
   \<and> local_objects a = local_objects b
   \<and> remote_objects a = remote_objects b
   \<and> next_node a = next_node b"

text \<open>Every cursor held in \<open>remote_objects\<close> points at a node of the waiting queue (the
  cursors "must remain valid", spec section 3).\<close>

definition cursors_valid :: "SchedulingAlgorithmState \<Rightarrow> bool" where
  "cursors_valid algorithm_state \<longleftrightarrow>
     list_all (\<lambda>(oid, entry).
        list_all (\<lambda>it. map_of (waiting_task_queue algorithm_state) it \<noteq> None)
          (dependent_tasks entry))
       (remote_objects algorithm_state)"

text \<open>An entry of \<open>remote_objects\<close> as \<^verbatim>\<open>handle_driver_removed\<close> leaves it: it has dependent
  tasks, and each is a waiting task of another driver.\<close>

definition purged :: "(nat \<times> TaskQueueEntry) list \<Rightarrow> WorkerID \<Rightarrow> ObjectID \<times> ObjectEntry \<Rightarrow> bool" where
  "purged waiting driver = (\<lambda>(k, entry). dependent_tasks entry \<noteq> []
      \<and> list_all (\<lambda>it. \<exists>task. map_of waiting it = Some task
                      \<and> TaskSpec_driver_id (spec task) \<noteq> driver) (dependent_tasks entry))"

text \<open>No worker appears twice in the three worker sequences taken together.\<close>

definition workers_disjoint :: "SchedulingAlgorithmState \<Rightarrow> bool" where
  "workers_disjoint algorithm_state \<longleftrightarrow>
     distinct (available_workers algorithm_state @ executing_workers algorithm_state
               @ blocked_workers algorithm_state)"

text \<open>Frames: what a step leaves unchanged in the collaborator state and in the algorithm
  state.\<close>

definition same_workers :: "SchedulingAlgorithmState \<Rightarrow> SchedulingAlgorithmState \<Rightarrow> bool" where
  "same_workers a b \<longleftrightarrow>
     available_workers a = available_workers b
   \<and> executing_workers a = executing_workers b
   \<and> blocked_workers a = blocked_workers b"

definition only_calls_differ :: "LocalSchedulerState \<Rightarrow> LocalSchedulerState \<Rightarrow> bool" where
  "only_calls_differ s t \<longleftrightarrow>
     dynamic_resources s = dynamic_resources t
   \<and> static_resources s = static_resources t
   \<and> child_pids s = child_pids t
   \<and> actor_mapping s = actor_mapping t
   \<and> db_connected s = db_connected t
   \<and> db_client_id s = db_client_id t
   \<and> global_scheduler_exists s = global_scheduler_exists t
   \<and> plasma_connected s = plasma_connected t"

definition only_remote_differs :: "SchedulingAlgorithmState \<Rightarrow> SchedulingAlgorithmState \<Rightarrow> bool" where
  "only_remote_differs a b \<longleftrightarrow>
     waiting_task_queue a = waiting_task_queue b
   \<and> dispatch_task_queue a = dispatch_task_queue b
   \<and> local_actor_infos a = local_actor_infos b
   \<and> cached_submitted_actor_tasks a = cached_submitted_actor_tasks b
   \<and> cached_submitted_actor_task_sizes a = cached_submitted_actor_task_sizes b
   \<and> available_workers a = available_workers b
   \<and> executing_workers a = executing_workers b
   \<and> blocked_workers a = blocked_workers b
   \<and> local_objects a = local_objects b
   \<and> next_node a = next_node b"

definition enqueue_frame :: "SchedulingAlgorithmState \<Rightarrow> SchedulingAlgorithmState \<Rightarrow> bool" where
  "enqueue_frame a b \<longleftrightarrow>
     same_workers b a \<and> set (dispatch_task_queue a) \<subseteq> set (dispatch_task_queue b)"

text \<open>The task an event brings with it, if it may enter the dispatch queue.\<close>

fun event_tasks :: "event \<Rightarrow> TaskSpec list" where
  "event_tasks (Task_submitted tspec tsize) = [tspec]"
| "event_tasks (Task_scheduled tspec tsize) = [tspec]"
| "event_tasks ev = []"

text \<open>No task that an event can find in the dispatch queue when it runs \<^verbatim>\<open>dispatch_tasks\<close>
  (the queued tasks and the task of the event) demands a negative amount of resource \<open>k\<close>.\<close>

definition demands_nonnegative :: "nat \<Rightarrow> SchedulingAlgorithmState \<Rightarrow> event \<Rightarrow> bool" where
  "demands_nonnegative k algorithm_state ev \<longleftrightarrow>
     list_all (\<lambda>u. 0 \<le> TaskSpec_get_required_resource (spec u) k)
       (dispatch_task_queue algorithm_state)
   \<and> list_all (\<lambda>(it, u). 0 \<le> TaskSpec_get_required_resource (spec u) k)
       (waiting_task_queue algorithm_state)
   \<and> list_all (\<lambda>tspec. 0 \<le> TaskSpec_get_required_resource tspec k) (event_tasks ev)"

text \<open>The two events that take a task out of the dispatch queue without assigning it: the
  removal of its driver and the removal of an object it depends on.\<close>

fun removes :: "event \<Rightarrow> TaskQueueEntry \<Rightarrow> bool" where
  "removes (Driver_removed driver) t = (TaskSpec_driver_id (spec t) = driver)"
| "removes (Object_removed oid) t = TaskSpec_is_dependent_on (spec t) oid"
| "removes ev t = False"

text \<open>
  A run of events during which task \<open>t\<close> exceeds the static capacity in component \<open>k\<close>:
  at each event the available amount of \<open>k\<close> is within the capacity, no task demands a
  negative amount, the event is neither the removal of the task's driver nor the removal
  of an object the task depends on, and the handler returns.
\<close>

inductive oversized_run ::
  "nat \<Rightarrow> TaskQueueEntry \<Rightarrow> SchedulingAlgorithmState \<Rightarrow> SchedulingAlgorithmState \<Rightarrow> bool"
  for k :: nat and t :: TaskQueueEntry where
  oversized_run_done: "oversized_run k t algorithm_state algorithm_state"
| oversized_run_step:
    "dynamic_resources state k \<le> static_resources state k
     \<Longrightarrow> static_resources state k < TaskSpec_get_required_resource (spec t) k
     \<Longrightarrow> demands_nonnegative k algorithm_state ev
     \<Longrightarrow> \<not> removes ev t
     \<Longrightarrow> handle_event ev state algorithm_state = Inr (state1, algorithm_state1)
     \<Longrightarrow> oversized_run k t algorithm_state1 algorithm_state2
     \<Longrightarrow> oversized_run k t algorithm_state algorithm_state2"

text \<open>The cursors that the second loop of \<^verbatim>\<open>handle_object_removed\<close> registers for an object:
  each node's cursor, once for every by-reference argument equal to the object.\<close>

definition cursors_of :: "ObjectID \<Rightarrow> (nat \<times> TaskQueueEntry) list \<Rightarrow> nat list" where
  "cursors_of oid nodes =
     concat (map (\<lambda>(it, task). replicate (count_list (TaskSpec_args (spec task)) (ArgByRef oid)) it)
               nodes)"

text \<open>The effect of a sequence of calls of \<^verbatim>\<open>fetch_missing_dependency\<close> for one object on
  \<open>remote_objects\<close>.\<close>

fun register_cursors ::
  "(ObjectID \<times> ObjectEntry) list \<Rightarrow> ObjectID \<Rightarrow> nat list \<Rightarrow> (ObjectID \<times> ObjectEntry) list" where
  "register_cursors remote oid [] = remote"
| "register_cursors remote oid (it # its) =
     register_cursors
       (case map_of remote oid of
          None \<Rightarrow> AList.update oid \<lparr>object_id = oid, dependent_tasks = [it]\<rparr> remote
        | Some entry \<Rightarrow>
            AList.update oid (entry\<lparr>dependent_tasks := dependent_tasks entry @ [it]\<rparr>) remote)
       oid its"

text \<open>The nodes that \<^verbatim>\<open>push_back\<close> allocates for a sequence of entries, from identity \<open>n\<close> on.\<close>

fun fresh_nodes :: "nat \<Rightarrow> TaskQueueEntry list \<Rightarrow> (nat \<times> TaskQueueEntry) list" where
  "fresh_nodes n [] = []"
| "fresh_nodes n (task # tasks) = (n, task) # fresh_nodes (Suc n) tasks"

text \<open>The state after the round trip, before the final \<^verbatim>\<open>dispatch_tasks\<close>: the tasks of the
  dispatch queue that depend on the object are at its tail, in their order; the entry of
  the object in \<open>local_objects\<close> holds the cursors \<open>its\<close>; the allocator has moved on.\<close>

definition removed_and_returned ::
  "SchedulingAlgorithmState \<Rightarrow> ObjectID \<Rightarrow> nat list \<Rightarrow> SchedulingAlgorithmState" where
  "removed_and_returned algorithm_state oid its =
     algorithm_state
       \<lparr>dispatch_task_queue :=
          filter (\<lambda>u. \<not> TaskSpec_is_dependent_on (spec u) oid) (dispatch_task_queue algorithm_state)
          @ filter (\<lambda>u. TaskSpec_is_dependent_on (spec u) oid) (dispatch_task_queue algorithm_state),
        local_objects :=
          (local_objects algorithm_state)(oid \<mapsto> \<lparr>object_id = oid, dependent_tasks = its\<rparr>),
        next_node := next_node algorithm_state
          + length (filter (\<lambda>u. TaskSpec_is_dependent_on (spec u) oid)
                      (dispatch_task_queue algorithm_state))\<rparr>"

text \<open>The event \<^verbatim>\<open>object_removed\<close> followed at once by \<^verbatim>\<open>object_available\<close> for the same
  object.\<close>

definition remove_then_available ::
  "LocalSchedulerState \<Rightarrow> SchedulingAlgorithmState \<Rightarrow> ObjectID
     \<Rightarrow> (LocalSchedulerState \<times> SchedulingAlgorithmState) result" where
  "remove_then_available state algorithm_state oid =
     and_then (handle_object_removed state algorithm_state oid)
       (\<lambda>(state1, algorithm_state1). handle_object_available state1 algorithm_state1 oid)"

text \<open>
  The words of the specification for \<^verbatim>\<open>dispatch_tasks\<close> (section 4.1), as a function of its
  own: the dispatch queue is visited from head to tail.  With no available worker the visit
  ends, after a request for a new worker when no worker process is pending.  It ends when
  every dynamic resource is zero.  A task that exceeds the dynamic resources in some component
  is skipped and stays where it is.  A task that fits is handed to the last available worker,
  which moves to the tail of the executing workers; its entry is freed (the source reports the
  resources in between) and leaves the queue.  The result holds the scheduler state, the
  available and the executing workers, and the tasks that stay, in their order.
\<close>

fun spec_dispatch_tasks ::
  "LocalSchedulerState \<Rightarrow> nat list \<Rightarrow> nat list \<Rightarrow> TaskQueueEntry list
     \<Rightarrow> LocalSchedulerState \<times> nat list \<times> nat list \<times> TaskQueueEntry list" where
  "spec_dispatch_tasks state available executing [] = (state, available, executing, [])"
| "spec_dispatch_tasks state available executing (task # queue) =
     (if available = []
      then ((if child_pids state = [] then record_call (Start_worker NIL_ACTOR_ID) state else state),
            available, executing, task # queue)
      else if list_all (\<lambda>k. dynamic_resources state k = 0) [0..<ResourceIndex_MAX]
      then (state, available, executing, task # queue)
      else if list_ex (\<lambda>i. dynamic_resources state i
                             < TaskSpec_get_required_resource (spec task) i)
                [0..<ResourceIndex_MAX]
      then (case spec_dispatch_tasks state available executing queue of
              (state1, available1, executing1, kept) \<Rightarrow>
                (state1, available1, executing1, task # kept))
      else spec_dispatch_tasks
             (TaskQueueEntry_free
                (record_call (Print_resource_info (spec task))
                   (assign_task_to_worker state (spec task) (task_spec_size task)
                      (Some (last available))))
                task)
             (butlast available) (executing @ [last available]) queue)"

text \<open>The cursors that \<^verbatim>\<open>handle_object_removed\<close> registers for the object: those of the waiting
  queue once the dependent tasks of the dispatch queue have joined it.\<close>

definition registered_cursors :: "ObjectID \<Rightarrow> SchedulingAlgorithmState \<Rightarrow> nat list" where
  "registered_cursors oid algorithm_state =
     cursors_of oid
       (waiting_task_queue algorithm_state
        @ fresh_nodes (next_node algorithm_state)
            (filter (\<lambda>u. TaskSpec_is_dependent_on (spec u) oid)
               (dispatch_task_queue algorithm_state)))"

text \<open>Some queued task, waiting or ready, names the object by reference.\<close>

definition names_object :: "ObjectID \<Rightarrow> SchedulingAlgorithmState \<Rightarrow> bool" where
  "names_object oid algorithm_state \<longleftrightarrow>
     list_ex (\<lambda>(it, t). TaskSpec_is_dependent_on (spec t) oid) (waiting_task_queue algorithm_state)
   \<or> list_ex (\<lambda>t. TaskSpec_is_dependent_on (spec t) oid) (dispatch_task_queue algorithm_state)"

text \<open>The dispatch queue with the tasks that depend on the object moved behind the others, both
  groups in their order.\<close>

definition dependents_moved :: "SchedulingAlgorithmState \<Rightarrow> ObjectID \<Rightarrow> SchedulingAlgorithmState" where
  "dependents_moved algorithm_state oid =
     algorithm_state
       \<lparr>dispatch_task_queue :=
          filter (\<lambda>u. \<not> TaskSpec_is_dependent_on (spec u) oid) (dispatch_task_queue algorithm_state)
          @ filter (\<lambda>u. TaskSpec_is_dependent_on (spec u) oid) (dispatch_task_queue algorithm_state)\<rparr>"

text \<open>The one fetch request that the creation of the entry in \<open>remote_objects\<close> emits when the
  object store is connected.\<close>

definition fetch_requested :: "LocalSchedulerState \<Rightarrow> ObjectID \<Rightarrow> LocalSchedulerState" where
  "fetch_requested state oid =
     (if plasma_connected state then record_call (Plasma_fetch [oid]) state else state)"

section \<open>Example inputs\<close>

text \<open>Concrete states, tasks and workers at which the theorems below are evaluated.\<close>

definition example_state :: LocalSchedulerState where
  "example_state =
     \<lparr>dynamic_resources = (\<lambda>i. if i = 0 then 1 else 0),
      static_resources = (\<lambda>i. if i = 0 then 2 else 0),
      child_pids = [], actor_mapping = Map.empty, db_connected = True, db_client_id = ID 7,
      global_scheduler_exists = True, plasma_connected = True, calls = []\<rparr>"

definition example_task :: "nat \<Rightarrow> rat \<Rightarrow> task_arg list \<Rightarrow> TaskSpec" where
  "example_task n cpu as =
     \<lparr>TaskSpec_driver_id = ID 1, TaskSpec_task_id = ID n, TaskSpec_actor_id = NIL_ID,
      TaskSpec_actor_counter = 0, TaskSpec_args = as,
      TaskSpec_get_required_resource = (\<lambda>i. if i = 0 then cpu else 0)\<rparr>"

definition example_client :: "nat \<Rightarrow> LocalSchedulerClient" where
  "example_client p = \<lparr>client_ptr = p, task_in_progress = None, client_actor_id = NIL_ID\<rparr>"

definition example_actor_task :: "nat \<Rightarrow> int64 \<Rightarrow> TaskSpec" where
  "example_actor_task a counter =
     \<lparr>TaskSpec_driver_id = ID 1, TaskSpec_task_id = ID (100 + unat counter),
      TaskSpec_actor_id = ID a, TaskSpec_actor_counter = counter, TaskSpec_args = [],
      TaskSpec_get_required_resource = (\<lambda>i. 0)\<rparr>"

definition example_actor_info :: LocalActorInfo where
  "example_actor_info =
     \<lparr>actor_id = ID 3, task_counter = 0,
      task_queue = [TaskQueueEntry_init (example_actor_task 3 0) 8,
                    TaskQueueEntry_init (example_actor_task 3 1) 8],
      worker = Some 9, worker_available = True\<rparr>"

definition example_actor_state :: LocalSchedulerState where
  "example_actor_state =
     example_state\<lparr>actor_mapping := [ID 3 \<mapsto> \<lparr>local_scheduler_id = ID 7\<rparr>]\<rparr>"

definition example_actor_algorithm_state :: SchedulingAlgorithmState where
  "example_actor_algorithm_state =
     SchedulingAlgorithmState_init\<lparr>local_actor_infos := [ID 3 \<mapsto> example_actor_info]\<rparr>"

definition example_waiting_task :: TaskSpec where
  "example_waiting_task = example_task 1 1 [ArgByRef (ID 10)]"

definition example_cached_algorithm_state :: SchedulingAlgorithmState where
  "example_cached_algorithm_state =
     SchedulingAlgorithmState_init
       \<lparr>cached_submitted_actor_tasks := [example_actor_task 3 0, example_actor_task 4 0],
        cached_submitted_actor_task_sizes := [8, 16]\<rparr>"

definition example_driver_algorithm_state :: SchedulingAlgorithmState where
  "example_driver_algorithm_state =
     SchedulingAlgorithmState_init
       \<lparr>waiting_task_queue :=
          [(0, TaskQueueEntry_init (example_task 1 1 [ArgByRef (ID 10)]) 8),
           (1, TaskQueueEntry_init ((example_task 2 1 [ArgByRef (ID 10), ArgByRef (ID 11)])
                                      \<lparr>TaskSpec_driver_id := ID 2\<rparr>) 8)],
        dispatch_task_queue := [TaskQueueEntry_init (example_task 3 1 []) 8],
        remote_objects := [(ID 10, \<lparr>object_id = ID 10, dependent_tasks = [0, 1]\<rparr>),
                           (ID 11, \<lparr>object_id = ID 11, dependent_tasks = [1]\<rparr>)],
        next_node := 2\<rparr>"

definition example_worker_algorithm_state :: SchedulingAlgorithmState where
  "example_worker_algorithm_state = SchedulingAlgorithmState_init\<lparr>available_workers := [5]\<rparr>"

definition example_oversized_algorithm_state :: SchedulingAlgorithmState where
  "example_oversized_algorithm_state =
     SchedulingAlgorithmState_init
       \<lparr>dispatch_task_queue := [TaskQueueEntry_init (example_task 1 3 []) 8,
                                TaskQueueEntry_init (example_task 2 1 []) 8]\<rparr>"

definition example_object_task :: "nat \<Rightarrow> task_arg list \<Rightarrow> TaskQueueEntry" where
  "example_object_task n as = TaskQueueEntry_init (example_task n 1 as) 8"

definition example_roundtrip_algorithm_state :: SchedulingAlgorithmState where
  "example_roundtrip_algorithm_state =
     SchedulingAlgorithmState_init
       \<lparr>dispatch_task_queue := [example_object_task 1 [ArgByRef (ID 10)], example_object_task 2 []],
        local_objects := [ID 10 \<mapsto> \<lparr>object_id = ID 10, dependent_tasks = []\<rparr>]\<rparr>"

definition example_waiting_algorithm_state :: SchedulingAlgorithmState where
  "example_waiting_algorithm_state =
     SchedulingAlgorithmState_init
       \<lparr>waiting_task_queue := [(0, example_object_task 4 [ArgByRef (ID 10), ArgByRef (ID 11)])],
        dispatch_task_queue := [example_object_task 1 [ArgByRef (ID 10)], example_object_task 2 [],
                                example_object_task 3 [ArgByVal 7, ArgByRef (ID 10)]],
        local_objects := [ID 10 \<mapsto> \<lparr>object_id = ID 10, dependent_tasks = []\<rparr>],
        remote_objects := [(ID 11, \<lparr>object_id = ID 11, dependent_tasks = [0]\<rparr>)],
        next_node := 1\<rparr>"

definition example_fragmented_state :: LocalSchedulerState where
  "example_fragmented_state = example_state\<lparr>dynamic_resources := (\<lambda>i. if i = 0 then 4 else 0)\<rparr>"

definition example_fragmented_algorithm_state :: SchedulingAlgorithmState where
  "example_fragmented_algorithm_state =
     SchedulingAlgorithmState_init
       \<lparr>dispatch_task_queue := [TaskQueueEntry_init (example_task 1 9 []) 8,
                                TaskQueueEntry_init (example_task 2 1 []) 8,
                                TaskQueueEntry_init (example_task 3 9 []) 8,
                                TaskQueueEntry_init (example_task 4 1 []) 8],
        available_workers := [4, 5, 6]\<rparr>"

definition example_twice_algorithm_state :: SchedulingAlgorithmState where
  "example_twice_algorithm_state =
     SchedulingAlgorithmState_init
       \<lparr>dispatch_task_queue := [example_object_task 5 [ArgByRef (ID 10), ArgByRef (ID 10)]],
        local_objects := [ID 10 \<mapsto> \<lparr>object_id = ID 10, dependent_tasks = []\<rparr>]\<rparr>"

definition example_twice_behind_algorithm_state :: SchedulingAlgorithmState where
  "example_twice_behind_algorithm_state =
     example_waiting_algorithm_state
       \<lparr>dispatch_task_queue :=
          dispatch_task_queue example_waiting_algorithm_state
          @ [example_object_task 5 [ArgByRef (ID 10), ArgByRef (ID 10)], example_object_task 6 []]\<rparr>"

section \<open>Properties of the worker vectors\<close>

lemma std_find_length_iff: "std_find xs w = length xs \<longleftrightarrow> w \<notin> set xs"
  by (induction xs) auto

lemma std_find_nth: "w \<in> set xs \<Longrightarrow> xs ! std_find xs w = w \<and> std_find xs w < length xs"
  by (induction xs) auto

lemma remove_worker_absent:
  "w \<notin> set xs \<Longrightarrow> remove_worker_from_vector xs w = (False, xs)"
  by (simp add: remove_worker_from_vector_def std_find_length_iff)

lemma fst_remove_worker: "fst (remove_worker_from_vector xs w) = (w \<in> set xs)"
  by (simp add: remove_worker_from_vector_def std_find_length_iff Let_def)

lemma swap_remove_distinct:
  assumes "distinct xs" "i < length xs"
  shows "set (butlast (xs[i := last xs])) = set xs - {xs ! i} \<and> distinct (butlast (xs[i := last xs]))"
proof -
  from assms(2) have "xs \<noteq> []" by auto
  then obtain ys l where xs: "xs = ys @ [l]" by (metis append_butlast_last_id)
  with assms(1) have d: "distinct ys" "l \<notin> set ys" by auto
  have lst: "last xs = l" by (simp add: xs)
  have sx: "set xs = insert l (set ys)" by (simp add: xs)
  show ?thesis
  proof (cases "i < length ys")
    case True
    then have "ys ! i \<in> set ys" by simp
    with d have ne: "ys ! i \<noteq> l" by auto
    have nth: "xs ! i = ys ! i" using True by (simp add: xs nth_append)
    have upd: "butlast (xs[i := last xs]) = ys[i := l]"
      using True by (simp add: xs list_update_append)
    have s: "set (ys[i := l]) = insert l (set ys - {ys ! i})"
      using d(1) True by (rule set_update_distinct)
    have dd: "distinct (ys[i := l])"
      using d by (simp add: distinct_list_update)
    have "insert l (set ys - {ys ! i}) = insert l (set ys) - {ys ! i}"
      using ne by blast
    then show ?thesis unfolding upd nth sx s using dd by simp
  next
    case False
    with assms(2) have i: "i = length ys" by (simp add: xs)
    have upd: "butlast (xs[i := last xs]) = ys" by (simp add: xs i)
    have nth: "xs ! i = l" by (simp add: xs i)
    have "insert l (set ys) - {l} = set ys" using d(2) by blast
    then show ?thesis unfolding upd nth sx using d(1) by simp
  qed
qed

lemma remove_worker_distinct:
  assumes "distinct xs"
  shows "set (snd (remove_worker_from_vector xs w)) = set xs - {w}
         \<and> distinct (snd (remove_worker_from_vector xs w))"
proof (cases "w \<in> set xs")
  case True
  from std_find_nth [OF True] swap_remove_distinct [OF assms, of "std_find xs w"]
  show ?thesis by (simp add: remove_worker_from_vector_def Let_def)
next
  case False
  then show ?thesis using assms by (simp add: remove_worker_absent)
qed

lemma resource_indices: "[0..<ResourceIndex_MAX] = [0, Suc 0]"
  by (simp add: ResourceIndex_MAX_def upt_rec)


lemma worker_available_in_progress: "task_in_progress client \<noteq> None \<Longrightarrow>
      handle_worker_available state algorithm_state client
        = Inl (Check_failure ''worker->task_in_progress == NULL'')"
  unfolding handle_worker_available_def CHECK_def by auto

lemma worker_available_not_in_progress: "task_in_progress client = None \<Longrightarrow>
      handle_worker_available state algorithm_state client
        \<noteq> Inl (Check_failure ''worker->task_in_progress == NULL'')"
  unfolding handle_worker_available_def CHECK_def DCHECK_def Let_def by simp

lemma worker_available_result:
  assumes a: "task_in_progress client = None"
       "client_ptr client \<notin> set (available_workers algorithm_state)"
       "client_ptr client \<notin> set (blocked_workers algorithm_state)"
       "distinct (executing_workers algorithm_state)"
  shows "handle_worker_available state algorithm_state client
           = Inr (dispatch_tasks state
                (algorithm_state\<lparr>executing_workers := snd (remove_worker_from_vector (executing_workers algorithm_state) (client_ptr client)),
                   available_workers := available_workers algorithm_state @ [client_ptr client]\<rparr>))"
proof -
  from a(4) remove_worker_distinct [of "executing_workers algorithm_state" "client_ptr client"]
  have "client_ptr client \<notin> set (snd (remove_worker_from_vector (executing_workers algorithm_state) (client_ptr client)))"
    by simp
  with a show ?thesis
    unfolding handle_worker_available_def CHECK_def DCHECK_def Let_def worker_in_vector_def by simp
qed


section \<open>The worker-available event\<close>

text \<open>
  C10: \<^verbatim>\<open>handle_worker_available\<close> aborts with the invariant-violation check exactly when
  the worker has a task in progress.  When it has none, that check does not fail; and if
  moreover the worker is in neither the available nor the blocked workers and the
  executing workers are distinct, the handler removes the worker from the executing
  workers if it is there, appends it to the tail of the available workers and runs
  \<^verbatim>\<open>dispatch_tasks\<close> on that state.
\<close>

theorem handle_worker_available_precondition:
  "(task_in_progress client \<noteq> None \<longrightarrow>
      handle_worker_available state algorithm_state client
        = Inl (Check_failure ''worker->task_in_progress == NULL''))
   \<and> (task_in_progress client = None \<longrightarrow>
      handle_worker_available state algorithm_state client
        \<noteq> Inl (Check_failure ''worker->task_in_progress == NULL''))
   \<and> (task_in_progress client = None
        \<and> client_ptr client \<notin> set (available_workers algorithm_state)
        \<and> client_ptr client \<notin> set (blocked_workers algorithm_state)
        \<and> distinct (executing_workers algorithm_state) \<longrightarrow>
      (\<exists>executing.
         handle_worker_available state algorithm_state client
           = Inr (dispatch_tasks state
                (algorithm_state\<lparr>executing_workers := executing,
                   available_workers := available_workers algorithm_state @ [client_ptr client]\<rparr>))
         \<and> set executing = set (executing_workers algorithm_state) - {client_ptr client}
         \<and> distinct executing
         \<and> (client_ptr client \<notin> set (executing_workers algorithm_state)
              \<longrightarrow> executing = executing_workers algorithm_state)))"
proof (intro conjI impI)
  assume "task_in_progress client \<noteq> None"
  then show "handle_worker_available state algorithm_state client
        = Inl (Check_failure ''worker->task_in_progress == NULL'')"
    by (rule worker_available_in_progress)
next
  assume "task_in_progress client = None"
  then show "handle_worker_available state algorithm_state client
        \<noteq> Inl (Check_failure ''worker->task_in_progress == NULL'')"
    by (rule worker_available_not_in_progress)
next
  assume a: "task_in_progress client = None
        \<and> client_ptr client \<notin> set (available_workers algorithm_state)
        \<and> client_ptr client \<notin> set (blocked_workers algorithm_state)
        \<and> distinct (executing_workers algorithm_state)"
  let ?e = "snd (remove_worker_from_vector (executing_workers algorithm_state) (client_ptr client))"
  from a remove_worker_distinct [of "executing_workers algorithm_state" "client_ptr client"]
  have e: "set ?e = set (executing_workers algorithm_state) - {client_ptr client}" "distinct ?e"
    by simp_all
  have r: "handle_worker_available state algorithm_state client
           = Inr (dispatch_tasks state
                (algorithm_state\<lparr>executing_workers := ?e,
                   available_workers := available_workers algorithm_state @ [client_ptr client]\<rparr>))"
    using a by (intro worker_available_result) simp_all
  have "client_ptr client \<notin> set (executing_workers algorithm_state)
              \<longrightarrow> ?e = executing_workers algorithm_state"
    by (simp add: remove_worker_absent)
  with r e show "\<exists>executing.
         handle_worker_available state algorithm_state client
           = Inr (dispatch_tasks state
                (algorithm_state\<lparr>executing_workers := executing,
                   available_workers := available_workers algorithm_state @ [client_ptr client]\<rparr>))
         \<and> set executing = set (executing_workers algorithm_state) - {client_ptr client}
         \<and> distinct executing
         \<and> (client_ptr client \<notin> set (executing_workers algorithm_state)
              \<longrightarrow> executing = executing_workers algorithm_state)"
    by (intro exI [of _ ?e] conjI)
qed

text \<open>C10, at a concrete input: worker 5 leaves the executing workers and becomes the only
  available worker; the same worker with a task in progress aborts the process.\<close>

theorem handle_worker_available_precondition_witness:
  "handle_worker_available example_state
      (SchedulingAlgorithmState_init\<lparr>executing_workers := [5, 6]\<rparr>) (example_client 5)
     = Inr (example_state,
            SchedulingAlgorithmState_init\<lparr>executing_workers := [6], available_workers := [5]\<rparr>)
   \<and> handle_worker_available example_state
        (SchedulingAlgorithmState_init\<lparr>executing_workers := [5, 6]\<rparr>)
        ((example_client 5)\<lparr>task_in_progress := Some (Task_alloc (example_task 1 1 []) 8 TASK_STATUS_QUEUED (ID 7))\<rparr>)
     = Inl (Check_failure ''worker->task_in_progress == NULL'')"
  using handle_worker_available_precondition
         [of "example_client 5" example_state "SchedulingAlgorithmState_init\<lparr>executing_workers := [5, 6]\<rparr>"]
        handle_worker_available_precondition
         [of "(example_client 5)\<lparr>task_in_progress := Some (Task_alloc (example_task 1 1 []) 8 TASK_STATUS_QUEUED (ID 7))\<rparr>"
             example_state "SchedulingAlgorithmState_init\<lparr>executing_workers := [5, 6]\<rparr>"]
  by (simp add: handle_worker_available_def CHECK_def DCHECK_def worker_in_vector_def
        remove_worker_from_vector_def dispatch_tasks_def example_client_def
        SchedulingAlgorithmState_init_def)

section \<open>Dispatch to an actor\<close>

text \<open>
  C1, amended: for an actor that passes the entry checks of \<^verbatim>\<open>dispatch_actor_task\<close> (a non-nil id
  mapped to this local scheduler, with a \<^verbatim>\<open>LocalActorInfo\<close>), the call returns false exactly
  when the actor's queue is empty, or the head's counter is greater than \<open>task_counter\<close>,
  or the counters agree and the worker is not available, and then changes nothing; it
  aborts on the assertion exactly when the head's counter is less than \<open>task_counter\<close>;
  otherwise it returns true after assigning the head task to the actor's worker, freeing
  it, adding one to \<open>task_counter\<close>, clearing \<open>worker_available\<close> and popping the head, the
  rest of the queue unchanged.
\<close>

theorem dispatch_actor_task_cases:
  assumes "aid \<noteq> NIL_ACTOR_ID"
      and "actor_mapping state aid = Some mapping"
      and "local_scheduler_id mapping = db_client_id state"
      and "local_actor_infos algorithm_state aid = Some entry"
  shows "((\<exists>state1 algorithm_state1.
             dispatch_actor_task state algorithm_state aid = Inr (False, state1, algorithm_state1))
          \<longleftrightarrow> (task_queue entry = []
               \<or> (task_queue entry \<noteq> []
                   \<and> (word_sless (task_counter entry)
                          (TaskSpec_actor_counter (spec (hd (task_queue entry))))
                       \<or> (TaskSpec_actor_counter (spec (hd (task_queue entry))) = task_counter entry
                           \<and> \<not> worker_available entry)))))
       \<and> (\<forall>state1 algorithm_state1.
             dispatch_actor_task state algorithm_state aid = Inr (False, state1, algorithm_state1)
             \<longrightarrow> state1 = state \<and> algorithm_state1 = algorithm_state)
       \<and> (dispatch_actor_task state algorithm_state aid
             = Inl (Check_failure ''next_task_counter > entry.task_counter'')
          \<longleftrightarrow> (task_queue entry \<noteq> []
               \<and> word_sless (TaskSpec_actor_counter (spec (hd (task_queue entry))))
                     (task_counter entry)))
       \<and> (\<forall>first_task rest.
             task_queue entry = first_task # rest
             \<and> TaskSpec_actor_counter (spec first_task) = task_counter entry
             \<and> worker_available entry
             \<longrightarrow> dispatch_actor_task state algorithm_state aid
                   = Inr (True,
                          TaskQueueEntry_free
                            (assign_task_to_worker state (spec first_task)
                               (task_spec_size first_task) (worker entry))
                            first_task,
                          algorithm_state\<lparr>local_actor_infos :=
                            (local_actor_infos algorithm_state)
                              (aid \<mapsto> entry\<lparr>task_counter := task_counter entry + 1,
                                             worker_available := False,
                                             task_queue := rest\<rparr>)\<rparr>))"
proof (cases "task_queue entry")
  case Nil
  with assms show ?thesis
    by (simp add: dispatch_actor_task_def CHECK_def)
next
  case (Cons first_task rest)
  let ?c = "TaskSpec_actor_counter (spec first_task)"
  let ?t = "task_counter entry"
  have dat: "dispatch_actor_task state algorithm_state aid =
      (if ?c \<noteq> ?t
       then (if word_sless ?t ?c then Inr (False, state, algorithm_state)
             else Inl (Check_failure ''next_task_counter > entry.task_counter''))
       else if \<not> worker_available entry then Inr (False, state, algorithm_state)
       else Inr (True,
                 TaskQueueEntry_free
                   (assign_task_to_worker state (spec first_task)
                      (task_spec_size first_task) (worker entry))
                   first_task,
                 algorithm_state\<lparr>local_actor_infos :=
                   (local_actor_infos algorithm_state)
                     (aid \<mapsto> entry\<lparr>task_counter := task_counter entry + 1,
                                    worker_available := False,
                                    task_queue := rest\<rparr>)\<rparr>))"
    using assms Cons by (simp add: dispatch_actor_task_def CHECK_def Let_def)
  consider (gt) "word_sless ?t ?c" | (lt) "word_sless ?c ?t" | (eq) "?c = ?t"
    using signed.less_linear [of ?t ?c] by auto
  then show ?thesis
  proof cases
    case gt
    then have "?c \<noteq> ?t" "\<not> word_sless ?c ?t" by (auto simp: word_sless_alt)
    with gt show ?thesis unfolding dat by (simp add: Cons)
  next
    case lt
    then have "?c \<noteq> ?t" "\<not> word_sless ?t ?c" by (auto simp: word_sless_alt)
    with lt show ?thesis unfolding dat by (simp add: Cons)
  next
    case eq
    then have "\<not> word_sless ?c ?t" "\<not> word_sless ?t ?c" by (auto simp: word_sless_alt)
    with eq show ?thesis unfolding dat by (simp add: Cons)
  qed
qed

text \<open>The amended C1 at a concrete input: actor 3 with counter 0, an available worker and the tasks
  with counters 0 and 1 queued.\<close>

theorem dispatch_actor_task_cases_witness:
  "\<exists>state1 algorithm_state1.
     dispatch_actor_task example_actor_state example_actor_algorithm_state (ID 3)
       = Inr (True, state1, algorithm_state1)
     \<and> calls state1 = [Assign_task_to_worker (example_actor_task 3 0) 8 (Some 9),
                        Free_TaskSpec (example_actor_task 3 0)]
     \<and> local_actor_infos algorithm_state1 (ID 3)
         = Some (example_actor_info\<lparr>task_counter := 1, worker_available := False,
                   task_queue := [TaskQueueEntry_init (example_actor_task 3 1) 8]\<rparr>)"
  using dispatch_actor_task_cases
    [of "ID 3" example_actor_state "\<lparr>local_scheduler_id = ID 7\<rparr>"
        example_actor_algorithm_state example_actor_info]
  by (simp add: example_actor_state_def example_actor_algorithm_state_def example_state_def
        example_actor_info_def NIL_ACTOR_ID_def TaskQueueEntry_init_def TaskQueueEntry_free_def
        assign_task_to_worker_def record_call_def example_actor_task_def)

section \<open>An actor task scheduled before the actor is known\<close>

lemma dispatch_actor_task_unknown_actor:
  "actor_mapping state aid = None \<Longrightarrow> \<exists>e. dispatch_actor_task state algorithm_state aid = Inl e"
  by (simp add: dispatch_actor_task_def CHECK_def)

lemma update_task_table_actor_mapping [simp]:
  "actor_mapping (update_task_table state tspec tsize from_global) = actor_mapping state"
  by (simp add: update_task_table_def record_call_def Let_def)

lemma add_task_to_actor_queue_actor_mapping:
  "add_task_to_actor_queue state algorithm_state tspec tsize from_global = Inr (state1, algorithm_state1)
   \<Longrightarrow> actor_mapping state1 = actor_mapping state"
  by (auto simp: add_task_to_actor_queue_def DCHECK_def CHECK_def and_then_def Let_def
           split: if_splits sum.splits option.splits)

text \<open>
  C4: when the actor of the task is absent from \<open>actor_mapping\<close>,
  \<^verbatim>\<open>handle_actor_task_scheduled\<close> never completes: every path ends in a failed check, the
  last of them the check of \<^verbatim>\<open>dispatch_actor_task\<close> that the actor is mapped.
\<close>

theorem actor_task_scheduled_unknown_actor_aborts:
  assumes "actor_mapping state (TaskSpec_actor_id tspec) = None"
  shows "\<exists>e. handle_actor_task_scheduled state algorithm_state tspec tsize = Inl e"
proof (cases "db_connected state \<and> global_scheduler_exists state \<and> TaskSpec_actor_id tspec \<noteq> NIL_ACTOR_ID")
  case False
  then show ?thesis
    by (auto simp: handle_actor_task_scheduled_def DCHECK_def CHECK_def Let_def)
next
  case True
  let ?st = "record_call (Log_info ''handle_actor_task_scheduled called on local scheduler but the corresponding actor_map_entry is not present. This should be rare.'') state"
  have m: "actor_mapping ?st = actor_mapping state" by (simp add: record_call_def)
  show ?thesis
  proof (cases "add_task_to_actor_queue ?st algorithm_state tspec tsize True")
    case (Inl e)
    with True assms show ?thesis
      by (simp add: handle_actor_task_scheduled_def DCHECK_def CHECK_def Let_def and_then_def)
  next
    case (Inr p)
    obtain state2 algorithm_state2 where p: "p = (state2, algorithm_state2)" by (cases p)
    from add_task_to_actor_queue_actor_mapping [OF Inr [unfolded p]] m assms
    have "actor_mapping state2 (TaskSpec_actor_id tspec) = None" by simp
    from dispatch_actor_task_unknown_actor [OF this, of algorithm_state2]
    obtain e where "dispatch_actor_task state2 algorithm_state2 (TaskSpec_actor_id tspec) = Inl e" ..
    with True assms Inr p show ?thesis
      by (simp add: handle_actor_task_scheduled_def DCHECK_def CHECK_def Let_def and_then_def)
  qed
qed

text \<open>C4, at a concrete input: the first task of actor 3, scheduled on the initial state
  with an empty actor mapping, aborts on the mapping check.\<close>

theorem actor_task_scheduled_unknown_actor_aborts_witness:
  "actor_mapping example_state (TaskSpec_actor_id (example_actor_task 3 0)) = None
   \<and> handle_actor_task_scheduled example_state SchedulingAlgorithmState_init
        (example_actor_task 3 0) 8
      = Inl (Check_failure ''state->actor_mapping.count(actor_id) == 1'')"
  using actor_task_scheduled_unknown_actor_aborts
    [of example_state "example_actor_task 3 0" SchedulingAlgorithmState_init 8]
  by (simp add: handle_actor_task_scheduled_def DCHECK_def CHECK_def and_then_def
        add_task_to_actor_queue_def create_actor_def dispatch_actor_task_def
        update_task_table_def record_call_def TaskQueueEntry_init_def
        example_state_def example_actor_task_def SchedulingAlgorithmState_init_def
        NIL_ACTOR_ID_def word_sle_eq)

section \<open>What the dispatch loops leave unchanged\<close>

lemma dispatch_tasks_loop_frame:
  "dispatch_tasks_loop state algorithm_state skipped rest = (state1, algorithm_state1) \<Longrightarrow>
     waiting_task_queue algorithm_state1 = waiting_task_queue algorithm_state
   \<and> local_actor_infos algorithm_state1 = local_actor_infos algorithm_state
   \<and> cached_submitted_actor_tasks algorithm_state1 = cached_submitted_actor_tasks algorithm_state
   \<and> cached_submitted_actor_task_sizes algorithm_state1 = cached_submitted_actor_task_sizes algorithm_state
   \<and> blocked_workers algorithm_state1 = blocked_workers algorithm_state
   \<and> local_objects algorithm_state1 = local_objects algorithm_state
   \<and> remote_objects algorithm_state1 = remote_objects algorithm_state
   \<and> next_node algorithm_state1 = next_node algorithm_state"
proof (induction rest arbitrary: state algorithm_state skipped)
  case Nil
  then show ?case by simp
next
  case (Cons task rest)
  show ?case
  proof (cases "available_workers algorithm_state = [] \<or> \<not> resources_available state")
    case True
    with Cons.prems show ?thesis by (auto split: if_splits)
  next
    case False
    show ?thesis
    proof (cases "task_satisfied state (spec task)")
      case True
      with False Cons.prems have "dispatch_tasks_loop
          (TaskQueueEntry_free (record_call (Print_resource_info (spec task))
             (assign_task_to_worker state (spec task) (task_spec_size task)
                (Some (last (available_workers algorithm_state))))) task)
          (algorithm_state
              \<lparr>available_workers := butlast (available_workers algorithm_state),
               executing_workers := executing_workers algorithm_state
                  @ [last (available_workers algorithm_state)],
               dispatch_task_queue := skipped @ rest\<rparr>) skipped rest = (state1, algorithm_state1)"
        by (simp add: Let_def)
      from Cons.IH [OF this] show ?thesis by simp
    next
      case sat: False
      with False Cons.prems have "dispatch_tasks_loop state algorithm_state (skipped @ [task]) rest
          = (state1, algorithm_state1)" by simp
      from Cons.IH [OF this] show ?thesis .
    qed
  qed
qed

lemma dispatch_tasks_frame:
  "dispatch_tasks state algorithm_state = (state1, algorithm_state1) \<Longrightarrow>
     waiting_task_queue algorithm_state1 = waiting_task_queue algorithm_state
   \<and> local_actor_infos algorithm_state1 = local_actor_infos algorithm_state
   \<and> cached_submitted_actor_tasks algorithm_state1 = cached_submitted_actor_tasks algorithm_state
   \<and> cached_submitted_actor_task_sizes algorithm_state1 = cached_submitted_actor_task_sizes algorithm_state
   \<and> blocked_workers algorithm_state1 = blocked_workers algorithm_state
   \<and> local_objects algorithm_state1 = local_objects algorithm_state
   \<and> remote_objects algorithm_state1 = remote_objects algorithm_state
   \<and> next_node algorithm_state1 = next_node algorithm_state"
  unfolding dispatch_tasks_def by (rule dispatch_tasks_loop_frame)

lemma move_dependent_tasks_frame:
  "move_dependent_tasks algorithm_state its = Inr algorithm_state1 \<Longrightarrow>
     local_objects algorithm_state1 = local_objects algorithm_state
   \<and> remote_objects algorithm_state1 = remote_objects algorithm_state
   \<and> local_actor_infos algorithm_state1 = local_actor_infos algorithm_state
   \<and> cached_submitted_actor_tasks algorithm_state1 = cached_submitted_actor_tasks algorithm_state
   \<and> cached_submitted_actor_task_sizes algorithm_state1 = cached_submitted_actor_task_sizes algorithm_state
   \<and> available_workers algorithm_state1 = available_workers algorithm_state
   \<and> executing_workers algorithm_state1 = executing_workers algorithm_state
   \<and> blocked_workers algorithm_state1 = blocked_workers algorithm_state
   \<and> next_node algorithm_state1 = next_node algorithm_state"
proof (induction its arbitrary: algorithm_state)
  case Nil
  then show ?case by simp
next
  case (Cons it its)
  from Cons.prems obtain task where t: "map_of (waiting_task_queue algorithm_state) it = Some task"
    by (auto split: option.splits)
  show ?case
  proof (cases "can_run algorithm_state (spec task)")
    case True
    with Cons.prems t Cons.IH [of "algorithm_state
                    \<lparr>dispatch_task_queue := dispatch_task_queue algorithm_state @ [task],
                     waiting_task_queue := AList.delete it (waiting_task_queue algorithm_state)\<rparr>"]
    show ?thesis by simp
  next
    case False
    with Cons.prems t Cons.IH [of algorithm_state] show ?thesis by simp
  qed
qed

section \<open>The entry stored by the object-available event\<close>

text \<open>
  C5: when \<^verbatim>\<open>handle_object_available\<close> returns for an object that had an entry in
  \<open>remote_objects\<close>, the entry stored in \<open>local_objects\<close> is that entry unchanged, its
  dependent tasks included: the list is not emptied.
\<close>

theorem object_available_keeps_dependent_tasks:
  assumes "map_of (remote_objects algorithm_state) oid = Some entry"
      and "handle_object_available state algorithm_state oid = Inr (state1, algorithm_state1)"
  shows "local_objects algorithm_state1 oid = Some entry"
proof -
  let ?a1 = "algorithm_state
               \<lparr>remote_objects := AList.delete oid (remote_objects algorithm_state),
                local_objects := (local_objects algorithm_state)(oid \<mapsto> entry)\<rparr>"
  from assms have chk: "local_objects algorithm_state oid = None"
    by (auto simp: handle_object_available_def CHECK_def split: if_splits)
  show ?thesis
  proof (cases "dependent_tasks entry = []")
    case True
    with assms chk show ?thesis
      by (auto simp: handle_object_available_def CHECK_def)
  next
    case False
    with assms chk obtain algorithm_state2 where
      mv: "move_dependent_tasks ?a1 (dependent_tasks entry) = Inr algorithm_state2"
      and d: "dispatch_tasks state algorithm_state2 = (state1, algorithm_state1)"
      by (auto simp: handle_object_available_def CHECK_def and_then_def split: sum.splits)
    from move_dependent_tasks_frame [OF mv] dispatch_tasks_frame [OF d]
    have "local_objects algorithm_state1 = local_objects ?a1" by simp
    then show ?thesis by simp
  qed
qed

text \<open>C5, at a concrete input: a task waiting for object 10 is scheduled on the initial
  state; when the object arrives the task leaves the waiting queue, and the entry stored in
  \<open>local_objects\<close> still holds the cursor of its erased node.\<close>

theorem object_available_keeps_dependent_tasks_witness:
  "\<exists>state1 algorithm_state1 state2 algorithm_state2.
     handle_task_scheduled example_state SchedulingAlgorithmState_init example_waiting_task 8
       = Inr (state1, algorithm_state1)
     \<and> remote_objects algorithm_state1 = [(ID 10, \<lparr>object_id = ID 10, dependent_tasks = [0]\<rparr>)]
     \<and> handle_object_available state1 algorithm_state1 (ID 10) = Inr (state2, algorithm_state2)
     \<and> local_objects algorithm_state2 (ID 10) = Some \<lparr>object_id = ID 10, dependent_tasks = [0]\<rparr>
     \<and> waiting_task_queue algorithm_state2 = []"
proof -
  let ?a1 = "SchedulingAlgorithmState_init
     \<lparr>waiting_task_queue := [(0, TaskQueueEntry_init example_waiting_task 8)], next_node := 1,
      remote_objects := [(ID 10, \<lparr>object_id = ID 10, dependent_tasks = [0]\<rparr>)]\<rparr>"
  let ?s1 = "example_state\<lparr>calls :=
      [Task_table_update (Task_alloc example_waiting_task 8 TASK_STATUS_QUEUED (ID 7)),
       Plasma_fetch [ID 10]]\<rparr>"
  have 1: "handle_task_scheduled example_state SchedulingAlgorithmState_init example_waiting_task 8
       = Inr (?s1, ?a1)"
    by (simp add: handle_task_scheduled_def DCHECK_def CHECK_def and_then_def queue_task_locally_def
          can_run_def queue_waiting_task_def queue_task_def update_task_table_def record_call_def
          fetch_missing_dependencies_def fetch_missing_dependency_def dispatch_tasks_def
          TaskQueueEntry_init_def example_waiting_task_def example_task_def example_state_def
          SchedulingAlgorithmState_init_def)
  obtain state2 algorithm_state2 where
    2: "handle_object_available ?s1 ?a1 (ID 10) = Inr (state2, algorithm_state2)"
    and w: "waiting_task_queue algorithm_state2 = []"
    by (simp add: handle_object_available_def CHECK_def and_then_def can_run_def dispatch_tasks_def
          TaskQueueEntry_init_def example_waiting_task_def example_task_def example_state_def
          SchedulingAlgorithmState_init_def record_call_def)
  have r: "map_of (remote_objects ?a1) (ID 10) = Some \<lparr>object_id = ID 10, dependent_tasks = [0]\<rparr>"
    by (simp add: SchedulingAlgorithmState_init_def)
  from object_available_keeps_dependent_tasks [OF r 2]
  have "local_objects algorithm_state2 (ID 10) = Some \<lparr>object_id = ID 10, dependent_tasks = [0]\<rparr>" .
  with 1 2 w show ?thesis by (intro exI [of _ ?s1] exI [of _ ?a1] exI [of _ state2] exI [of _ algorithm_state2]) (simp add: SchedulingAlgorithmState_init_def)
qed

section \<open>Dispatch of regular tasks: skipping\<close>

lemma resources_available_iff:
  "resources_available state \<longleftrightarrow> (\<exists>k<ResourceIndex_MAX. 0 < dynamic_resources state k)"
  by (auto simp: resources_available_def list_ex_iff)

lemma task_satisfied_iff:
  "task_satisfied state tspec \<longleftrightarrow>
     (\<forall>i<ResourceIndex_MAX. TaskSpec_get_required_resource tspec i \<le> dynamic_resources state i)"
  by (auto simp: task_satisfied_def list_all_iff not_less)

lemma dispatch_tasks_loop_skip:
  assumes "available_workers algorithm_state \<noteq> []" "resources_available state"
      and "\<forall>u\<in>set unfit. \<not> task_satisfied state (spec u)"
  shows "dispatch_tasks_loop state algorithm_state skipped (unfit @ rest)
         = dispatch_tasks_loop state algorithm_state (skipped @ unfit) rest"
  using assms(3)
proof (induction unfit arbitrary: skipped)
  case Nil
  then show ?case by simp
next
  case (Cons u unfit)
  with assms(1,2) show ?case by simp
qed

lemma dispatch_tasks_loop_result:
  assumes "dispatch_tasks_loop state algorithm_state skipped rest = (state1, algorithm_state1)"
      and "dispatch_task_queue algorithm_state = skipped @ rest"
  shows "\<exists>kept. dispatch_task_queue algorithm_state1 = skipped @ kept \<and> subseq kept rest
           \<and> prefix (calls state) (calls state1)
           \<and> prefix (executing_workers algorithm_state) (executing_workers algorithm_state1)
           \<and> prefix (available_workers algorithm_state1) (available_workers algorithm_state)"
  using assms
proof (induction rest arbitrary: state algorithm_state skipped)
  case Nil
  then show ?case by auto
next
  case (Cons task rest)
  show ?case
  proof (cases "available_workers algorithm_state = [] \<or> \<not> resources_available state")
    case True
    with Cons.prems have "algorithm_state1 = algorithm_state"
      and "prefix (calls state) (calls state1)"
      by (auto simp: record_call_def split: if_splits)
    with Cons.prems(2) show ?thesis by auto
  next
    case False
    show ?thesis
    proof (cases "task_satisfied state (spec task)")
      case True
      let ?w = "last (available_workers algorithm_state)"
      let ?st = "TaskQueueEntry_free (record_call (Print_resource_info (spec task))
             (assign_task_to_worker state (spec task) (task_spec_size task) (Some ?w))) task"
      let ?al = "algorithm_state
              \<lparr>available_workers := butlast (available_workers algorithm_state),
               executing_workers := executing_workers algorithm_state @ [?w],
               dispatch_task_queue := skipped @ rest\<rparr>"
      from True False Cons.prems have "dispatch_tasks_loop ?st ?al skipped rest = (state1, algorithm_state1)"
        by (simp add: Let_def)
      from Cons.IH [OF this] obtain kept where
        k: "dispatch_task_queue algorithm_state1 = skipped @ kept" "subseq kept rest"
           "prefix (calls ?st) (calls state1)"
           "prefix (executing_workers ?al) (executing_workers algorithm_state1)"
           "prefix (available_workers algorithm_state1) (available_workers ?al)"
        by auto
      have p1: "prefix (calls state) (calls ?st)"
        by (simp add: TaskQueueEntry_free_def record_call_def assign_task_to_worker_def)
      have c: "prefix (calls state) (calls state1)"
        by (rule prefix_order.trans [OF p1 k(3)])
      have p2: "prefix (executing_workers algorithm_state) (executing_workers ?al)" by simp
      have e: "prefix (executing_workers algorithm_state) (executing_workers algorithm_state1)"
        by (rule prefix_order.trans [OF p2 k(4)])
      have p3: "prefix (available_workers ?al) (available_workers algorithm_state)"
        by (simp add: prefixeq_butlast)
      have a: "prefix (available_workers algorithm_state1) (available_workers algorithm_state)"
        by (rule prefix_order.trans [OF k(5) p3])
      from k(2) have "subseq kept (task # rest)" by (rule list_emb_Cons)
      with k(1) c e a show ?thesis by blast
    next
      case sat: False
      with False Cons.prems have "dispatch_tasks_loop state algorithm_state (skipped @ [task]) rest
          = (state1, algorithm_state1)" by simp
      from Cons.IH [OF this] Cons.prems(2) obtain kept where
        k: "dispatch_task_queue algorithm_state1 = (skipped @ [task]) @ kept" "subseq kept rest"
           "prefix (calls state) (calls state1)"
           "prefix (executing_workers algorithm_state) (executing_workers algorithm_state1)"
           "prefix (available_workers algorithm_state1) (available_workers algorithm_state)"
        by auto
      from k(1) have "dispatch_task_queue algorithm_state1 = skipped @ (task # kept)" by simp
      moreover from k(2) have "subseq (task # kept) (task # rest)" by simp
      ultimately show ?thesis using k(3,4,5) by blast
    qed
  qed
qed

section \<open>Collaborator calls and the fields they leave unchanged\<close>

lemma record_call_fields [simp]:
  "dynamic_resources (record_call c state) = dynamic_resources state"
  "static_resources (record_call c state) = static_resources state"
  "child_pids (record_call c state) = child_pids state"
  "actor_mapping (record_call c state) = actor_mapping state"
  "db_connected (record_call c state) = db_connected state"
  "db_client_id (record_call c state) = db_client_id state"
  "global_scheduler_exists (record_call c state) = global_scheduler_exists state"
  "plasma_connected (record_call c state) = plasma_connected state"
  "calls (record_call c state) = calls state @ [c]"
  by (simp_all add: record_call_def)

lemma assign_task_to_worker_fields [simp]:
  "static_resources (assign_task_to_worker state tspec tsize w) = static_resources state"
  "child_pids (assign_task_to_worker state tspec tsize w) = child_pids state"
  "actor_mapping (assign_task_to_worker state tspec tsize w) = actor_mapping state"
  "db_connected (assign_task_to_worker state tspec tsize w) = db_connected state"
  "db_client_id (assign_task_to_worker state tspec tsize w) = db_client_id state"
  "global_scheduler_exists (assign_task_to_worker state tspec tsize w) = global_scheduler_exists state"
  "plasma_connected (assign_task_to_worker state tspec tsize w) = plasma_connected state"
  "calls (assign_task_to_worker state tspec tsize w)
     = calls state @ [Assign_task_to_worker tspec tsize w]"
  by (simp_all add: assign_task_to_worker_def)

lemma TaskQueueEntry_free_fields [simp]:
  "dynamic_resources (TaskQueueEntry_free state entry) = dynamic_resources state"
  "static_resources (TaskQueueEntry_free state entry) = static_resources state"
  "child_pids (TaskQueueEntry_free state entry) = child_pids state"
  "actor_mapping (TaskQueueEntry_free state entry) = actor_mapping state"
  "db_connected (TaskQueueEntry_free state entry) = db_connected state"
  "db_client_id (TaskQueueEntry_free state entry) = db_client_id state"
  "global_scheduler_exists (TaskQueueEntry_free state entry) = global_scheduler_exists state"
  "plasma_connected (TaskQueueEntry_free state entry) = plasma_connected state"
  "calls (TaskQueueEntry_free state entry) = calls state @ [Free_TaskSpec (spec entry)]"
  by (simp_all add: TaskQueueEntry_free_def)

lemma update_task_table_fields [simp]:
  "dynamic_resources (update_task_table state tspec tsize g) = dynamic_resources state"
  "static_resources (update_task_table state tspec tsize g) = static_resources state"
  "child_pids (update_task_table state tspec tsize g) = child_pids state"
  "db_connected (update_task_table state tspec tsize g) = db_connected state"
  "db_client_id (update_task_table state tspec tsize g) = db_client_id state"
  "global_scheduler_exists (update_task_table state tspec tsize g) = global_scheduler_exists state"
  "plasma_connected (update_task_table state tspec tsize g) = plasma_connected state"
  by (simp_all add: update_task_table_def Let_def)

lemma same_queues_refl [simp]: "same_queues a a"
  by (simp add: same_queues_def)

lemma same_queues_trans: "same_queues a b \<Longrightarrow> same_queues b c \<Longrightarrow> same_queues a c"
  by (simp add: same_queues_def)

lemma same_queues_actor_fields [simp]:
  "same_queues (a\<lparr>local_actor_infos := m\<rparr>) b = same_queues a b"
  "same_queues (a\<lparr>cached_submitted_actor_tasks := ts\<rparr>) b = same_queues a b"
  "same_queues (a\<lparr>cached_submitted_actor_task_sizes := zs\<rparr>) b = same_queues a b"
  by (simp_all add: same_queues_def)

section \<open>What the actor subsystem leaves unchanged\<close>

lemma create_actor_frame:
  "create_actor algorithm_state aid w = Inr algorithm_state1 \<Longrightarrow>
     same_queues algorithm_state1 algorithm_state
   \<and> cached_submitted_actor_tasks algorithm_state1 = cached_submitted_actor_tasks algorithm_state
   \<and> cached_submitted_actor_task_sizes algorithm_state1 = cached_submitted_actor_task_sizes algorithm_state"
  by (auto simp: create_actor_def CHECK_def Let_def split: if_splits)

lemma add_task_to_actor_queue_frame:
  assumes "add_task_to_actor_queue state algorithm_state tspec tsize g = Inr (state1, algorithm_state1)"
  shows "same_queues algorithm_state1 algorithm_state
   \<and> cached_submitted_actor_tasks algorithm_state1 = cached_submitted_actor_tasks algorithm_state
   \<and> cached_submitted_actor_task_sizes algorithm_state1 = cached_submitted_actor_task_sizes algorithm_state
   \<and> actor_mapping state1 = actor_mapping state \<and> db_client_id state1 = db_client_id state
   \<and> dynamic_resources state1 = dynamic_resources state
   \<and> static_resources state1 = static_resources state"
proof (cases "local_actor_infos algorithm_state (TaskSpec_actor_id tspec)")
  case None
  with assms obtain a where c: "create_actor algorithm_state (TaskSpec_actor_id tspec) None = Inr a"
    by (auto simp: add_task_to_actor_queue_def DCHECK_def CHECK_def and_then_def Let_def
             split: if_splits sum.splits)
  from create_actor_frame [OF c] assms None c show ?thesis
    by (auto simp: add_task_to_actor_queue_def DCHECK_def CHECK_def and_then_def Let_def
             split: if_splits option.splits)
next
  case (Some entry)
  with assms show ?thesis
    by (auto simp: add_task_to_actor_queue_def DCHECK_def CHECK_def and_then_def Let_def
             split: if_splits)
qed

lemma dispatch_actor_task_frame:
  assumes "dispatch_actor_task state algorithm_state aid = Inr (b, state1, algorithm_state1)"
  shows "same_queues algorithm_state1 algorithm_state
   \<and> cached_submitted_actor_tasks algorithm_state1 = cached_submitted_actor_tasks algorithm_state
   \<and> cached_submitted_actor_task_sizes algorithm_state1 = cached_submitted_actor_task_sizes algorithm_state
   \<and> actor_mapping state1 = actor_mapping state \<and> db_client_id state1 = db_client_id state
   \<and> static_resources state1 = static_resources state"
  using assms
  by (auto simp: dispatch_actor_task_def CHECK_def Let_def
           split: if_splits option.splits list.splits)

lemma give_task_to_local_scheduler_frame:
  assumes "give_task_to_local_scheduler state algorithm_state tspec tsize sid = Inr (state1, algorithm_state1)"
  shows "algorithm_state1 = algorithm_state
   \<and> actor_mapping state1 = actor_mapping state \<and> db_client_id state1 = db_client_id state
   \<and> dynamic_resources state1 = dynamic_resources state
   \<and> static_resources state1 = static_resources state"
  using assms
  by (auto simp: give_task_to_local_scheduler_def CHECK_def DCHECK_def Let_def split: if_splits)

section \<open>Replay of the cached actor tasks\<close>

lemma handle_actor_task_submitted_cached:
  assumes "handle_actor_task_submitted state algorithm_state tspec tsize = Inr (state1, algorithm_state1)"
  shows "actor_mapping state1 = actor_mapping state
   \<and> cached_submitted_actor_tasks algorithm_state1
       = cached_submitted_actor_tasks algorithm_state
         @ (if actor_mapping state (TaskSpec_actor_id tspec) = None then [tspec] else [])
   \<and> cached_submitted_actor_task_sizes algorithm_state1
       = cached_submitted_actor_task_sizes algorithm_state
         @ (if actor_mapping state (TaskSpec_actor_id tspec) = None then [tsize] else [])"
proof (cases "actor_mapping state (TaskSpec_actor_id tspec)")
  case None
  with assms show ?thesis
    by (auto simp: handle_actor_task_submitted_def CHECK_def Let_def split: if_splits)
next
  case (Some mapping)
  show ?thesis
  proof (cases "local_scheduler_id mapping = db_client_id state")
    case True
    with assms Some obtain state2 algorithm_state2 b where
      a: "add_task_to_actor_queue state algorithm_state tspec tsize False = Inr (state2, algorithm_state2)"
      and d: "dispatch_actor_task state2 algorithm_state2 (TaskSpec_actor_id tspec)
                = Inr (b, state1, algorithm_state1)"
      by (auto simp: handle_actor_task_submitted_def CHECK_def Let_def and_then_def
               split: if_splits sum.splits)
    from add_task_to_actor_queue_frame [OF a] dispatch_actor_task_frame [OF d] Some
    show ?thesis by simp
  next
    case False
    with assms Some have
      "give_task_to_local_scheduler state algorithm_state tspec tsize (local_scheduler_id mapping)
         = Inr (state1, algorithm_state1)"
      by (auto simp: handle_actor_task_submitted_def CHECK_def Let_def split: if_splits)
    from give_task_to_local_scheduler_frame [OF this] Some show ?thesis by simp
  qed
qed

lemma resubmit_cached_loop_snapshot:
  assumes "cached_submitted_actor_tasks algorithm_state = tasks @ appended"
      and "cached_submitted_actor_task_sizes algorithm_state = sizes @ appended_sizes"
      and "length tasks = length sizes"
      and "i + left = length tasks"
  shows "resubmit_cached_loop i left state algorithm_state
         = resubmit_snapshot (drop i (zip tasks sizes)) state algorithm_state"
  using assms
proof (induction left arbitrary: i state algorithm_state appended appended_sizes)
  case 0
  then show ?case by simp
next
  case (Suc left)
  from Suc.prems have i: "i < length tasks" "i < length sizes" by simp_all
  with Suc.prems have rd: "cached_submitted_actor_tasks algorithm_state ! i = tasks ! i"
      "cached_submitted_actor_task_sizes algorithm_state ! i = sizes ! i"
    by (simp_all add: nth_append)
  from i have dr: "drop i (zip tasks sizes) = (tasks ! i, sizes ! i) # drop (Suc i) (zip tasks sizes)"
    by (simp add: Cons_nth_drop_Suc [symmetric])
  from i Suc.prems have bounds: "i < length (cached_submitted_actor_tasks algorithm_state)"
      "i < length (cached_submitted_actor_task_sizes algorithm_state)"
    by simp_all
  show ?case
  proof (cases "handle_actor_task_submitted state algorithm_state (tasks ! i) (sizes ! i)")
    case (Inl e)
    with bounds rd dr show ?thesis by (simp add: and_then_def)
  next
    case (Inr p)
    obtain state1 algorithm_state1 where p: "p = (state1, algorithm_state1)" by (cases p)
    from handle_actor_task_submitted_cached [OF Inr [unfolded p]] Suc.prems(1,2)
    obtain more more_sizes where
      "cached_submitted_actor_tasks algorithm_state1 = tasks @ more"
      "cached_submitted_actor_task_sizes algorithm_state1 = sizes @ more_sizes"
      by simp
    from Suc.IH [OF this Suc.prems(3), of "Suc i" state1] Suc.prems(4)
    have "resubmit_cached_loop (Suc i) left state1 algorithm_state1
         = resubmit_snapshot (drop (Suc i) (zip tasks sizes)) state1 algorithm_state1" by simp
    with Inr p bounds rd dr show ?thesis by (simp add: and_then_def)
  qed
qed

lemma resubmit_snapshot_cached:
  assumes "resubmit_snapshot xs state algorithm_state = Inr (state1, algorithm_state1)"
  shows "actor_mapping state1 = actor_mapping state
   \<and> cached_submitted_actor_tasks algorithm_state1
       = cached_submitted_actor_tasks algorithm_state
         @ map fst (filter (\<lambda>(tspec, tsize). actor_mapping state (TaskSpec_actor_id tspec) = None) xs)
   \<and> cached_submitted_actor_task_sizes algorithm_state1
       = cached_submitted_actor_task_sizes algorithm_state
         @ map snd (filter (\<lambda>(tspec, tsize). actor_mapping state (TaskSpec_actor_id tspec) = None) xs)"
  using assms
proof (induction xs arbitrary: state algorithm_state)
  case Nil
  then show ?case by simp
next
  case (Cons x xs)
  obtain tspec tsize where x: "x = (tspec, tsize)" by (cases x)
  from Cons.prems x obtain state2 algorithm_state2 where
    h: "handle_actor_task_submitted state algorithm_state tspec tsize = Inr (state2, algorithm_state2)"
    and r: "resubmit_snapshot xs state2 algorithm_state2 = Inr (state1, algorithm_state1)"
    by (auto simp: and_then_def split: sum.splits)
  from handle_actor_task_submitted_cached [OF h] Cons.IH [OF r] x
  show ?case by simp
qed

lemma filter_zip_fst:
  "length xs = length ys \<Longrightarrow> map fst (filter (\<lambda>(x, y). P x) (zip xs ys)) = filter P xs"
  by (induction xs ys rule: list_induct2) auto

text \<open>
  C7: with the two cached arrays of the same length \<open>N\<close>, the handler of an actor creation
  notification re-submits exactly the \<open>N\<close> cached specs of the snapshot, in order, and then
  erases the first \<open>N\<close> entries.  When it returns, the cached list holds exactly the specs
  that the replay appended again (those whose actor is still unknown), in order, with
  their sizes: they were neither reprocessed in this call nor erased.
\<close>

theorem actor_creation_notification_replays_snapshot:
  assumes "length (cached_submitted_actor_tasks algorithm_state)
           = length (cached_submitted_actor_task_sizes algorithm_state)"
  shows "handle_actor_creation_notification state algorithm_state aid
         = and_then
             (resubmit_snapshot
                (zip (cached_submitted_actor_tasks algorithm_state)
                     (cached_submitted_actor_task_sizes algorithm_state))
                state algorithm_state)
             (\<lambda>(state1, algorithm_state1).
                Inr (state1, algorithm_state1
                  \<lparr>cached_submitted_actor_tasks :=
                     drop (length (cached_submitted_actor_tasks algorithm_state))
                       (cached_submitted_actor_tasks algorithm_state1),
                   cached_submitted_actor_task_sizes :=
                     drop (length (cached_submitted_actor_tasks algorithm_state))
                       (cached_submitted_actor_task_sizes algorithm_state1)\<rparr>))
       \<and> (\<forall>state1 algorithm_state1.
             handle_actor_creation_notification state algorithm_state aid
               = Inr (state1, algorithm_state1)
             \<longrightarrow> cached_submitted_actor_tasks algorithm_state1
                   = filter (\<lambda>tspec. actor_mapping state (TaskSpec_actor_id tspec) = None)
                       (cached_submitted_actor_tasks algorithm_state)
                 \<and> cached_submitted_actor_task_sizes algorithm_state1
                   = map snd
                       (filter (\<lambda>(tspec, tsize). actor_mapping state (TaskSpec_actor_id tspec) = None)
                          (zip (cached_submitted_actor_tasks algorithm_state)
                               (cached_submitted_actor_task_sizes algorithm_state))))"
proof -
  let ?tasks = "cached_submitted_actor_tasks algorithm_state"
  let ?sizes = "cached_submitted_actor_task_sizes algorithm_state"
  let ?unknown = "\<lambda>(tspec, tsize :: int64). actor_mapping state (TaskSpec_actor_id tspec) = None"
  have loop: "resubmit_cached_loop 0 (length ?tasks) state algorithm_state
              = resubmit_snapshot (zip ?tasks ?sizes) state algorithm_state"
    using resubmit_cached_loop_snapshot [of algorithm_state ?tasks "[]" ?sizes "[]" 0 "length ?tasks" state]
      assms by simp
  have eq: "handle_actor_creation_notification state algorithm_state aid
         = and_then (resubmit_snapshot (zip ?tasks ?sizes) state algorithm_state)
             (\<lambda>(state1, algorithm_state1).
                Inr (state1, algorithm_state1
                  \<lparr>cached_submitted_actor_tasks :=
                     drop (length ?tasks) (cached_submitted_actor_tasks algorithm_state1),
                   cached_submitted_actor_task_sizes :=
                     drop (length ?tasks) (cached_submitted_actor_task_sizes algorithm_state1)\<rparr>))"
    unfolding handle_actor_creation_notification_def Let_def loop utarray_erase_def CHECK_def
    using assms by simp
  have res: "cached_submitted_actor_tasks algorithm_state1
                   = filter (\<lambda>tspec. actor_mapping state (TaskSpec_actor_id tspec) = None) ?tasks
           \<and> cached_submitted_actor_task_sizes algorithm_state1
                   = map snd (filter ?unknown (zip ?tasks ?sizes))"
    if h: "handle_actor_creation_notification state algorithm_state aid
               = Inr (state1, algorithm_state1)" for state1 algorithm_state1
  proof -
    from h [unfolded eq] obtain state2 algorithm_state2 where
      r: "resubmit_snapshot (zip ?tasks ?sizes) state algorithm_state = Inr (state2, algorithm_state2)"
      and a1: "algorithm_state1 = algorithm_state2
                  \<lparr>cached_submitted_actor_tasks :=
                     drop (length ?tasks) (cached_submitted_actor_tasks algorithm_state2),
                   cached_submitted_actor_task_sizes :=
                     drop (length ?tasks) (cached_submitted_actor_task_sizes algorithm_state2)\<rparr>"
      by (auto simp: and_then_def split: sum.splits)
    from resubmit_snapshot_cached [OF r] assms
    have "cached_submitted_actor_tasks algorithm_state1
            = map fst (filter ?unknown (zip ?tasks ?sizes))"
      and "cached_submitted_actor_task_sizes algorithm_state1
            = map snd (filter ?unknown (zip ?tasks ?sizes))"
      by (simp_all add: a1)
    then show ?thesis using filter_zip_fst [OF assms] by simp
  qed
  from eq res show ?thesis by blast
qed

text \<open>C7, at a concrete input: a task of the known actor 3 and a task of the unknown
  actor 4 are cached; the first goes to the queue of actor 3, the second stays cached.\<close>

theorem actor_creation_notification_replays_snapshot_witness:
  "\<exists>state1 algorithm_state1.
      handle_actor_creation_notification example_actor_state example_cached_algorithm_state (ID 3)
        = Inr (state1, algorithm_state1)
    \<and> cached_submitted_actor_tasks algorithm_state1 = [example_actor_task 4 0]
    \<and> cached_submitted_actor_task_sizes algorithm_state1 = [16]
    \<and> map_option task_queue (local_actor_infos algorithm_state1 (ID 3))
        = Some [TaskQueueEntry_init (example_actor_task 3 0) 8]"
  using actor_creation_notification_replays_snapshot
    [of example_cached_algorithm_state example_actor_state "ID 3"]
  by (simp add: example_cached_algorithm_state_def example_actor_state_def example_state_def
        example_actor_task_def SchedulingAlgorithmState_init_def and_then_def
        handle_actor_task_submitted_def add_task_to_actor_queue_def create_actor_def
        dispatch_actor_task_def CHECK_def DCHECK_def NIL_ACTOR_ID_def update_task_table_def
        TaskQueueEntry_init_def word_sle_eq Let_def record_call_def)

section \<open>Driver removal\<close>

lemma map_of_filter_keep:
  "map_of xs k = Some v \<Longrightarrow> P (k, v) \<Longrightarrow> map_of (filter P xs) k = Some v"
  by (induction xs) (auto split: if_splits)

lemma purge_dependent_tasks_total:
  "list_all (\<lambda>it. map_of waiting it \<noteq> None) its
   \<Longrightarrow> \<exists>kept. purge_dependent_tasks waiting driver its = Inr kept"
  by (induction its) (auto simp: and_then_def)

lemma purge_dependent_tasks_kept:
  "purge_dependent_tasks waiting driver its = Inr kept
   \<Longrightarrow> list_all (\<lambda>it. \<exists>task. map_of waiting it = Some task
                      \<and> TaskSpec_driver_id (spec task) \<noteq> driver) kept"
proof (induction its arbitrary: kept)
  case Nil
  then show ?case by simp
next
  case (Cons it its)
  from Cons.prems obtain task kept1 where
    t: "map_of waiting it = Some task"
    and k: "purge_dependent_tasks waiting driver its = Inr kept1"
    and r: "kept = (if TaskSpec_driver_id (spec task) = driver then kept1 else it # kept1)"
    by (auto simp: and_then_def split: option.splits sum.splits)
  from Cons.IH [OF k] t r show ?case by simp
qed

lemma purge_dependent_tasks_fixed:
  "list_all (\<lambda>it. \<exists>task. map_of waiting it = Some task
                      \<and> TaskSpec_driver_id (spec task) \<noteq> driver) its
   \<Longrightarrow> purge_dependent_tasks waiting driver its = Inr its"
  by (induction its) (auto simp: and_then_def)

lemma purge_remote_objects_total:
  "list_all (\<lambda>(oid, entry). list_all (\<lambda>it. map_of waiting it \<noteq> None) (dependent_tasks entry)) remote
   \<Longrightarrow> \<exists>remote1. purge_remote_objects waiting driver remote = Inr remote1"
proof (induction remote)
  case Nil
  then show ?case by simp
next
  case (Cons x remote)
  obtain k entry where x: "x = (k, entry)" by (cases x)
  from Cons.prems x purge_dependent_tasks_total [of waiting "dependent_tasks entry" driver]
  obtain kept where "purge_dependent_tasks waiting driver (dependent_tasks entry) = Inr kept"
    by auto
  moreover from Cons obtain remote1 where "purge_remote_objects waiting driver remote = Inr remote1"
    by auto
  ultimately show ?case by (simp add: x and_then_def)
qed

lemma purge_remote_objects_purged:
  "purge_remote_objects waiting driver remote = Inr remote1
   \<Longrightarrow> list_all (purged waiting driver) remote1"
proof (induction remote arbitrary: remote1)
  case Nil
  then show ?case by simp
next
  case (Cons x remote)
  obtain k entry where x: "x = (k, entry)" by (cases x)
  from Cons.prems x obtain kept rest1 where
    p: "purge_dependent_tasks waiting driver (dependent_tasks entry) = Inr kept"
    and r: "purge_remote_objects waiting driver remote = Inr rest1"
    and e: "remote1 = (if length kept = 0 then rest1 else (k, entry\<lparr>dependent_tasks := kept\<rparr>) # rest1)"
    by (auto simp: and_then_def split: sum.splits)
  from purge_dependent_tasks_kept [OF p] Cons.IH [OF r] e show ?case
    by (simp add: purged_def)
qed

lemma purge_remote_objects_fixed:
  "list_all (purged waiting driver) remote \<Longrightarrow> purge_remote_objects waiting driver remote = Inr remote"
proof (induction remote)
  case Nil
  then show ?case by simp
next
  case (Cons x remote)
  obtain k entry where x: "x = (k, entry)" by (cases x)
  from Cons.prems x have "purge_dependent_tasks waiting driver (dependent_tasks entry)
      = Inr (dependent_tasks entry)" and "dependent_tasks entry \<noteq> []"
    by (simp_all add: purged_def purge_dependent_tasks_fixed)
  with Cons x show ?case by (simp add: and_then_def)
qed

lemma purged_filter:
  assumes "purged waiting driver x"
  shows "purged (filter (\<lambda>(it, task). TaskSpec_driver_id (spec task) \<noteq> driver) waiting) driver x"
proof -
  obtain k entry where x: "x = (k, entry)" by (cases x)
  have "\<exists>task. map_of (filter (\<lambda>(it, task). TaskSpec_driver_id (spec task) \<noteq> driver) waiting) it
                  = Some task \<and> TaskSpec_driver_id (spec task) \<noteq> driver"
    if "\<exists>task. map_of waiting it = Some task \<and> TaskSpec_driver_id (spec task) \<noteq> driver" for it
    using that map_of_filter_keep [of waiting it _ "\<lambda>(it, task). TaskSpec_driver_id (spec task) \<noteq> driver"]
    by auto
  with assms x show ?thesis
    by (auto simp: purged_def list_all_iff)
qed

text \<open>
  C8: in a state whose cursors are valid, \<^verbatim>\<open>handle_driver_removed\<close> returns, and a second
  call for the same driver on the state it returned returns that very state: the second
  call changes nothing, in the queues and object tables or anywhere else.
\<close>

theorem handle_driver_removed_idempotent:
  assumes "cursors_valid algorithm_state"
  shows "\<exists>state1 algorithm_state1.
           handle_driver_removed state algorithm_state driver = Inr (state1, algorithm_state1)
         \<and> handle_driver_removed state1 algorithm_state1 driver = Inr (state1, algorithm_state1)"
proof -
  let ?w = "waiting_task_queue algorithm_state"
  let ?keep = "\<lambda>(it :: nat, task). TaskSpec_driver_id (spec task) \<noteq> driver"
  from assms purge_remote_objects_total [of ?w "remote_objects algorithm_state" driver]
  obtain remote1 where p: "purge_remote_objects ?w driver (remote_objects algorithm_state) = Inr remote1"
    by (auto simp: cursors_valid_def)
  let ?a1 = "algorithm_state
            \<lparr>remote_objects := remote1,
             waiting_task_queue := filter ?keep ?w,
             dispatch_task_queue :=
               filter (\<lambda>task. TaskSpec_driver_id (spec task) \<noteq> driver)
                 (dispatch_task_queue algorithm_state)\<rparr>"
  from p have first: "handle_driver_removed state algorithm_state driver = Inr (state, ?a1)"
    by (simp add: handle_driver_removed_def and_then_def)
  from purge_remote_objects_purged [OF p] have "list_all (purged ?w driver) remote1" .
  then have "list_all (purged (filter ?keep ?w) driver) remote1"
    by (auto simp: list_all_iff intro: purged_filter)
  from purge_remote_objects_fixed [OF this]
  have "handle_driver_removed state ?a1 driver = Inr (state, ?a1)"
    by (simp add: handle_driver_removed_def and_then_def)
  with first show ?thesis by blast
qed

text \<open>C8, at a concrete input: driver 1 owns a waiting task and a dispatch task, driver 2 a
  waiting task; both waiting tasks depend on object 10.\<close>

theorem handle_driver_removed_idempotent_witness:
  "cursors_valid example_driver_algorithm_state
   \<and> (\<exists>state1 algorithm_state1.
         handle_driver_removed example_state example_driver_algorithm_state (ID 1)
           = Inr (state1, algorithm_state1)
       \<and> map fst (waiting_task_queue algorithm_state1) = [1]
       \<and> dispatch_task_queue algorithm_state1 = []
       \<and> remote_objects algorithm_state1
           = [(ID 10, \<lparr>object_id = ID 10, dependent_tasks = [1]\<rparr>),
              (ID 11, \<lparr>object_id = ID 11, dependent_tasks = [1]\<rparr>)]
       \<and> handle_driver_removed state1 algorithm_state1 (ID 1) = Inr (state1, algorithm_state1))"
proof -
  have v: "cursors_valid example_driver_algorithm_state"
    by (simp add: cursors_valid_def example_driver_algorithm_state_def
          SchedulingAlgorithmState_init_def)
  from handle_driver_removed_idempotent [OF v, of example_state "ID 1"]
  obtain state1 algorithm_state1 where
    h: "handle_driver_removed example_state example_driver_algorithm_state (ID 1)
           = Inr (state1, algorithm_state1)"
       "handle_driver_removed state1 algorithm_state1 (ID 1) = Inr (state1, algorithm_state1)"
    by blast
  from h(1) have "map fst (waiting_task_queue algorithm_state1) = [1]
       \<and> dispatch_task_queue algorithm_state1 = []
       \<and> remote_objects algorithm_state1
           = [(ID 10, \<lparr>object_id = ID 10, dependent_tasks = [1]\<rparr>),
              (ID 11, \<lparr>object_id = ID 11, dependent_tasks = [1]\<rparr>)]"
    by (auto simp: handle_driver_removed_def and_then_def example_driver_algorithm_state_def
          SchedulingAlgorithmState_init_def TaskQueueEntry_init_def example_task_def)
  with v h show ?thesis
    by (intro conjI exI [of _ state1] exI [of _ algorithm_state1]) simp_all
qed

section \<open>The three worker sequences are disjoint\<close>

lemma same_workers_refl [simp]: "same_workers a a"
  by (simp add: same_workers_def)

lemma same_workers_trans: "same_workers a b \<Longrightarrow> same_workers b c \<Longrightarrow> same_workers a c"
  by (simp add: same_workers_def)

lemma same_workers_disjoint: "same_workers a b \<Longrightarrow> workers_disjoint b \<Longrightarrow> workers_disjoint a"
  by (simp add: same_workers_def workers_disjoint_def)

lemma same_queues_workers: "same_queues a b \<Longrightarrow> same_workers a b"
  by (simp add: same_queues_def same_workers_def)

lemma same_workers_other_fields [simp]:
  "same_workers (a\<lparr>waiting_task_queue := w\<rparr>) b = same_workers a b"
  "same_workers (a\<lparr>dispatch_task_queue := d\<rparr>) b = same_workers a b"
  "same_workers (a\<lparr>local_actor_infos := m\<rparr>) b = same_workers a b"
  "same_workers (a\<lparr>cached_submitted_actor_tasks := ts\<rparr>) b = same_workers a b"
  "same_workers (a\<lparr>cached_submitted_actor_task_sizes := zs\<rparr>) b = same_workers a b"
  "same_workers (a\<lparr>local_objects := lo\<rparr>) b = same_workers a b"
  "same_workers (a\<lparr>remote_objects := ro\<rparr>) b = same_workers a b"
  "same_workers (a\<lparr>next_node := n\<rparr>) b = same_workers a b"
  by (simp_all add: same_workers_def)

lemma dispatch_tasks_loop_workers_disjoint:
  assumes "dispatch_tasks_loop state algorithm_state skipped rest = (state1, algorithm_state1)"
      and "workers_disjoint algorithm_state"
  shows "workers_disjoint algorithm_state1"
  using assms
proof (induction rest arbitrary: state algorithm_state skipped)
  case Nil
  then show ?case by simp
next
  case (Cons task rest)
  show ?case
  proof (cases "available_workers algorithm_state = [] \<or> \<not> resources_available state")
    case True
    with Cons.prems show ?thesis by (auto split: if_splits)
  next
    case False
    show ?thesis
    proof (cases "task_satisfied state (spec task)")
      case True
      let ?w = "last (available_workers algorithm_state)"
      let ?al = "algorithm_state
              \<lparr>available_workers := butlast (available_workers algorithm_state),
               executing_workers := executing_workers algorithm_state @ [?w],
               dispatch_task_queue := skipped @ rest\<rparr>"
      from True False Cons.prems(1) obtain st where
        l: "dispatch_tasks_loop st ?al skipped rest = (state1, algorithm_state1)"
        by (simp add: Let_def)
      from False have "available_workers algorithm_state
          = butlast (available_workers algorithm_state) @ [?w]" by simp
      with Cons.prems(2) have
        "distinct ((butlast (available_workers algorithm_state) @ [?w])
                   @ executing_workers algorithm_state @ blocked_workers algorithm_state)"
        by (simp add: workers_disjoint_def)
      then have "workers_disjoint ?al" by (auto simp: workers_disjoint_def)
      from Cons.IH [OF l this] show ?thesis .
    next
      case sat: False
      with False Cons.prems(1) have "dispatch_tasks_loop state algorithm_state (skipped @ [task]) rest
          = (state1, algorithm_state1)" by simp
      from Cons.IH [OF this Cons.prems(2)] show ?thesis .
    qed
  qed
qed

lemma dispatch_tasks_workers_disjoint:
  "dispatch_tasks state algorithm_state = (state1, algorithm_state1)
   \<Longrightarrow> workers_disjoint algorithm_state \<Longrightarrow> workers_disjoint algorithm_state1"
  unfolding dispatch_tasks_def by (rule dispatch_tasks_loop_workers_disjoint)

lemma remove_worker_cases:
  assumes "distinct xs"
  obtains ys where "remove_worker_from_vector xs w = (w \<in> set xs, ys)"
    "set ys = set xs - {w}" "distinct ys"
proof -
  from remove_worker_distinct [OF assms, of w] fst_remove_worker [of xs w]
  have "remove_worker_from_vector xs w = (w \<in> set xs, snd (remove_worker_from_vector xs w))"
    "set (snd (remove_worker_from_vector xs w)) = set xs - {w}"
    "distinct (snd (remove_worker_from_vector xs w))"
    by (simp_all add: prod_eq_iff)
  then show ?thesis by (rule that)
qed

lemma handle_worker_available_workers_disjoint:
  assumes "handle_worker_available state algorithm_state client = Inr (state1, algorithm_state1)"
      and "workers_disjoint algorithm_state"
  shows "workers_disjoint algorithm_state1"
proof -
  let ?w = "client_ptr client"
  from assms(2) have d: "distinct (executing_workers algorithm_state)"
    by (simp add: workers_disjoint_def)
  obtain ys where r: "remove_worker_from_vector (executing_workers algorithm_state) ?w
       = (?w \<in> set (executing_workers algorithm_state), ys)"
    and ys: "set ys = set (executing_workers algorithm_state) - {?w}" "distinct ys"
    using d by (rule remove_worker_cases)
  from assms(1) have c: "?w \<notin> set (available_workers algorithm_state)"
      "?w \<notin> set (blocked_workers algorithm_state)"
    and disp: "dispatch_tasks state
          (algorithm_state\<lparr>executing_workers := ys,
             available_workers := available_workers algorithm_state @ [?w]\<rparr>)
           = (state1, algorithm_state1)"
    by (auto simp: handle_worker_available_def CHECK_def DCHECK_def Let_def worker_in_vector_def r
             split: if_splits)
  from assms(2) c ys have "workers_disjoint (algorithm_state\<lparr>executing_workers := ys,
             available_workers := available_workers algorithm_state @ [?w]\<rparr>)"
    by (auto simp: workers_disjoint_def)
  from dispatch_tasks_workers_disjoint [OF disp this] show ?thesis .
qed

lemma handle_worker_removed_workers_disjoint:
  assumes "handle_worker_removed state algorithm_state client = Inr (state1, algorithm_state1)"
      and "workers_disjoint algorithm_state"
  shows "workers_disjoint algorithm_state1"
proof -
  let ?w = "client_ptr client"
  from assms(2) have d: "distinct (available_workers algorithm_state)"
    "distinct (executing_workers algorithm_state)" "distinct (blocked_workers algorithm_state)"
    by (simp_all add: workers_disjoint_def)
  obtain av where rav: "remove_worker_from_vector (available_workers algorithm_state) ?w
       = (?w \<in> set (available_workers algorithm_state), av)"
    and av: "set av = set (available_workers algorithm_state) - {?w}" "distinct av"
    using d(1) by (rule remove_worker_cases)
  obtain ex where rex: "remove_worker_from_vector (executing_workers algorithm_state) ?w
       = (?w \<in> set (executing_workers algorithm_state), ex)"
    and ex: "set ex = set (executing_workers algorithm_state) - {?w}" "distinct ex"
    using d(2) by (rule remove_worker_cases)
  obtain bl where rbl: "remove_worker_from_vector (blocked_workers algorithm_state) ?w
       = (?w \<in> set (blocked_workers algorithm_state), bl)"
    and bl: "set bl = set (blocked_workers algorithm_state) - {?w}" "distinct bl"
    using d(3) by (rule remove_worker_cases)
  from assms(1) have "algorithm_state1 = algorithm_state\<lparr>available_workers := av,
               executing_workers := ex, blocked_workers := bl\<rparr>"
    by (auto simp: handle_worker_removed_def CHECK_def DCHECK_def Let_def rav rex rbl
             split: if_splits)
  with assms(2) av ex bl show ?thesis
    by (auto simp: workers_disjoint_def)
qed

lemma handle_worker_blocked_workers_disjoint:
  assumes "handle_worker_blocked state algorithm_state client = Inr (state1, algorithm_state1)"
      and "workers_disjoint algorithm_state"
  shows "workers_disjoint algorithm_state1"
proof -
  let ?w = "client_ptr client"
  from assms(2) have d: "distinct (executing_workers algorithm_state)"
    by (simp add: workers_disjoint_def)
  obtain ys where r: "remove_worker_from_vector (executing_workers algorithm_state) ?w
       = (?w \<in> set (executing_workers algorithm_state), ys)"
    and ys: "set ys = set (executing_workers algorithm_state) - {?w}" "distinct ys"
    using d by (rule remove_worker_cases)
  from assms(1) have c: "?w \<in> set (executing_workers algorithm_state)"
      "?w \<notin> set (blocked_workers algorithm_state)"
    and disp: "dispatch_tasks state
          (algorithm_state\<lparr>executing_workers := ys,
             blocked_workers := blocked_workers algorithm_state @ [?w]\<rparr>)
           = (state1, algorithm_state1)"
    by (auto simp: handle_worker_blocked_def CHECK_def DCHECK_def Let_def worker_in_vector_def r
             split: if_splits)
  from assms(2) c ys have "workers_disjoint (algorithm_state\<lparr>executing_workers := ys,
             blocked_workers := blocked_workers algorithm_state @ [?w]\<rparr>)"
    by (auto simp: workers_disjoint_def)
  from dispatch_tasks_workers_disjoint [OF disp this] show ?thesis .
qed

lemma handle_worker_unblocked_workers_disjoint:
  assumes "handle_worker_unblocked state algorithm_state client = Inr (state1, algorithm_state1)"
      and "workers_disjoint algorithm_state"
  shows "workers_disjoint algorithm_state1"
proof -
  let ?w = "client_ptr client"
  from assms(2) have d: "distinct (blocked_workers algorithm_state)"
    by (simp add: workers_disjoint_def)
  obtain ys where r: "remove_worker_from_vector (blocked_workers algorithm_state) ?w
       = (?w \<in> set (blocked_workers algorithm_state), ys)"
    and ys: "set ys = set (blocked_workers algorithm_state) - {?w}" "distinct ys"
    using d by (rule remove_worker_cases)
  from assms(1) have c: "?w \<in> set (blocked_workers algorithm_state)"
      "?w \<notin> set (executing_workers algorithm_state)"
    and a1: "algorithm_state1 = algorithm_state\<lparr>blocked_workers := ys,
                executing_workers := executing_workers algorithm_state @ [?w]\<rparr>"
    by (auto simp: handle_worker_unblocked_def CHECK_def DCHECK_def Let_def worker_in_vector_def r
             split: if_splits)
  from assms(2) c ys show ?thesis unfolding a1
    by (auto simp: workers_disjoint_def)
qed

lemma only_calls_differ_refl [simp]: "only_calls_differ s s"
  by (simp add: only_calls_differ_def)

lemma only_calls_differ_trans:
  "only_calls_differ s t \<Longrightarrow> only_calls_differ t u \<Longrightarrow> only_calls_differ s u"
  by (simp add: only_calls_differ_def)

lemma only_calls_differ_simps [simp]:
  "only_calls_differ (record_call c s) t = only_calls_differ s t"
  "only_calls_differ (TaskQueueEntry_free s entry) t = only_calls_differ s t"
  "only_calls_differ (update_task_table s tspec tsize g) t = only_calls_differ s t"
  "only_calls_differ (queue_task s entry g) t = only_calls_differ s t"
  "only_calls_differ t (record_call c s) = only_calls_differ t s"
  "only_calls_differ t (TaskQueueEntry_free s entry) = only_calls_differ t s"
  "only_calls_differ t (update_task_table s tspec tsize g) = only_calls_differ t s"
  "only_calls_differ t (queue_task s entry g) = only_calls_differ t s"
  by (simp_all add: only_calls_differ_def queue_task_def)

lemma only_remote_differs_refl [simp]: "only_remote_differs a a"
  by (simp add: only_remote_differs_def)

lemma only_remote_differs_trans:
  "only_remote_differs a b \<Longrightarrow> only_remote_differs b c \<Longrightarrow> only_remote_differs a c"
  by (simp add: only_remote_differs_def)

lemma only_remote_differs_update [simp]:
  "only_remote_differs (a\<lparr>remote_objects := r\<rparr>) b = only_remote_differs a b"
  by (simp add: only_remote_differs_def)

lemma enqueue_frame_refl [simp]: "enqueue_frame a a"
  by (simp add: enqueue_frame_def)

lemma enqueue_frame_trans: "enqueue_frame a b \<Longrightarrow> enqueue_frame b c \<Longrightarrow> enqueue_frame a c"
  by (auto simp: enqueue_frame_def same_workers_def)

lemma same_queues_enqueue_frame: "same_queues b a \<Longrightarrow> enqueue_frame a b"
  by (simp add: same_queues_def enqueue_frame_def same_workers_def)

lemma only_remote_differs_enqueue_frame: "only_remote_differs b a \<Longrightarrow> enqueue_frame a b"
  by (simp add: only_remote_differs_def enqueue_frame_def same_workers_def)

lemma enqueue_frame_workers_disjoint:
  "enqueue_frame a b \<Longrightarrow> workers_disjoint a \<Longrightarrow> workers_disjoint b"
  by (simp add: enqueue_frame_def same_workers_def workers_disjoint_def)

lemma fetch_missing_dependency_frame:
  "fetch_missing_dependency state algorithm_state it oid = (state1, algorithm_state1)
   \<Longrightarrow> only_calls_differ state1 state \<and> only_remote_differs algorithm_state1 algorithm_state"
  by (auto simp: fetch_missing_dependency_def split: option.splits if_splits)

lemma fetch_missing_dependencies_loop_frame:
  "fetch_missing_dependencies_loop state algorithm_state it as n = (state1, algorithm_state1, n1)
   \<Longrightarrow> only_calls_differ state1 state \<and> only_remote_differs algorithm_state1 algorithm_state"
proof (induction as arbitrary: state algorithm_state n)
  case Nil
  then show ?case by simp
next
  case (Cons a as)
  show ?case
  proof (cases a)
    case (ArgByVal v)
    with Cons show ?thesis by simp
  next
    case (ArgByRef oid)
    show ?thesis
    proof (cases "local_objects algorithm_state oid = None")
      case False
      with Cons ArgByRef show ?thesis by simp
    next
      case True
      obtain state2 algorithm_state2 where
        f: "fetch_missing_dependency state algorithm_state it oid = (state2, algorithm_state2)"
        by (cases "fetch_missing_dependency state algorithm_state it oid")
      with Cons.prems ArgByRef True have
        "fetch_missing_dependencies_loop state2 algorithm_state2 it as (Suc n)
           = (state1, algorithm_state1, n1)" by simp
      from Cons.IH [OF this] fetch_missing_dependency_frame [OF f]
      show ?thesis by (blast intro: only_calls_differ_trans only_remote_differs_trans)
    qed
  qed
qed

lemma fetch_missing_dependencies_frame:
  assumes "fetch_missing_dependencies state algorithm_state it = Inr (state1, algorithm_state1)"
  shows "only_calls_differ state1 state \<and> only_remote_differs algorithm_state1 algorithm_state"
proof (cases "map_of (waiting_task_queue algorithm_state) it")
  case None
  with assms show ?thesis by (simp add: fetch_missing_dependencies_def)
next
  case (Some entry)
  obtain state2 algorithm_state2 n where
    l: "fetch_missing_dependencies_loop state algorithm_state it (TaskSpec_args (spec entry)) 0
       = (state2, algorithm_state2, n)"
    by (cases "fetch_missing_dependencies_loop state algorithm_state it (TaskSpec_args (spec entry)) 0")
  with assms Some have "state2 = state1" "algorithm_state2 = algorithm_state1"
    by (auto simp: fetch_missing_dependencies_def CHECK_def split: if_splits)
  with fetch_missing_dependencies_loop_frame [OF l] show ?thesis by simp
qed

lemma queue_waiting_task_frame:
  assumes "queue_waiting_task state algorithm_state tspec tsize g = Inr (state1, algorithm_state1)"
  shows "only_calls_differ state1 state \<and> enqueue_frame algorithm_state algorithm_state1"
proof -
  from fetch_missing_dependencies_frame [OF assms [unfolded queue_waiting_task_def Let_def]]
  show ?thesis
    by (simp add: only_remote_differs_def enqueue_frame_def same_workers_def)
qed

lemma queue_dispatch_task_frame:
  "queue_dispatch_task state algorithm_state tspec tsize g = (state1, algorithm_state1)
   \<Longrightarrow> only_calls_differ state1 state \<and> enqueue_frame algorithm_state algorithm_state1"
  by (auto simp: queue_dispatch_task_def Let_def enqueue_frame_def same_workers_def)

lemma queue_task_locally_frame:
  "queue_task_locally state algorithm_state tspec tsize g = Inr (state1, algorithm_state1)
   \<Longrightarrow> only_calls_differ state1 state \<and> enqueue_frame algorithm_state algorithm_state1"
  by (auto simp: queue_task_locally_def split: if_splits
           dest: queue_dispatch_task_frame queue_waiting_task_frame)

lemma give_task_to_global_scheduler_frame:
  "give_task_to_global_scheduler state algorithm_state tspec tsize = Inr (state1, algorithm_state1)
   \<Longrightarrow> only_calls_differ state1 state \<and> enqueue_frame algorithm_state algorithm_state1"
  by (auto simp: give_task_to_global_scheduler_def DCHECK_def CHECK_def split: if_splits
           dest: queue_task_locally_frame)

lemma queue_waiting_task_result:
  assumes "queue_waiting_task state algorithm_state tspec tsize g = Inr (state1, algorithm_state1)"
  shows "dispatch_task_queue algorithm_state1 = dispatch_task_queue algorithm_state"
proof -
  from fetch_missing_dependencies_frame [OF assms [unfolded queue_waiting_task_def Let_def]]
  show ?thesis by (simp add: only_remote_differs_def)
qed

lemma queue_dispatch_task_result:
  "queue_dispatch_task state algorithm_state tspec tsize g = (state1, algorithm_state1)
   \<Longrightarrow> set (dispatch_task_queue algorithm_state1)
       \<subseteq> insert (TaskQueueEntry_init tspec tsize) (set (dispatch_task_queue algorithm_state))"
  by (auto simp: queue_dispatch_task_def Let_def)

lemma queue_task_locally_result:
  "queue_task_locally state algorithm_state tspec tsize g = Inr (state1, algorithm_state1)
   \<Longrightarrow> set (dispatch_task_queue algorithm_state1)
       \<subseteq> insert (TaskQueueEntry_init tspec tsize) (set (dispatch_task_queue algorithm_state))"
  by (auto simp: queue_task_locally_def split: if_splits
           dest: queue_dispatch_task_result queue_waiting_task_result)

lemma give_task_to_global_scheduler_result:
  "give_task_to_global_scheduler state algorithm_state tspec tsize = Inr (state1, algorithm_state1)
   \<Longrightarrow> set (dispatch_task_queue algorithm_state1)
       \<subseteq> insert (TaskQueueEntry_init tspec tsize) (set (dispatch_task_queue algorithm_state))"
  by (auto simp: give_task_to_global_scheduler_def DCHECK_def CHECK_def split: if_splits
           dest: queue_task_locally_result)

lemma move_dependent_tasks_enqueue_frame:
  "move_dependent_tasks algorithm_state its = Inr algorithm_state1
   \<Longrightarrow> enqueue_frame algorithm_state algorithm_state1"
proof (induction its arbitrary: algorithm_state)
  case Nil
  then show ?case by simp
next
  case (Cons it its)
  from Cons.prems obtain task where t: "map_of (waiting_task_queue algorithm_state) it = Some task"
    by (auto split: option.splits)
  show ?case
  proof (cases "can_run algorithm_state (spec task)")
    case True
    let ?a = "algorithm_state
                    \<lparr>dispatch_task_queue := dispatch_task_queue algorithm_state @ [task],
                     waiting_task_queue := AList.delete it (waiting_task_queue algorithm_state)\<rparr>"
    from Cons.prems t True have "move_dependent_tasks ?a its = Inr algorithm_state1" by simp
    from Cons.IH [OF this] have "enqueue_frame ?a algorithm_state1" .
    moreover have "enqueue_frame algorithm_state ?a"
      by (auto simp: enqueue_frame_def same_workers_def)
    ultimately show ?thesis by (blast intro: enqueue_frame_trans)
  next
    case False
    with Cons.prems t Cons.IH [of algorithm_state] show ?thesis by simp
  qed
qed

lemma handle_actor_task_submitted_same_queues:
  assumes "handle_actor_task_submitted state algorithm_state tspec tsize = Inr (state1, algorithm_state1)"
  shows "same_queues algorithm_state1 algorithm_state"
proof (cases "actor_mapping state (TaskSpec_actor_id tspec)")
  case None
  with assms show ?thesis
    by (auto simp: handle_actor_task_submitted_def CHECK_def Let_def split: if_splits)
next
  case (Some mapping)
  show ?thesis
  proof (cases "local_scheduler_id mapping = db_client_id state")
    case True
    with assms Some obtain state2 algorithm_state2 b where
      a: "add_task_to_actor_queue state algorithm_state tspec tsize False = Inr (state2, algorithm_state2)"
      and d: "dispatch_actor_task state2 algorithm_state2 (TaskSpec_actor_id tspec)
                = Inr (b, state1, algorithm_state1)"
      by (auto simp: handle_actor_task_submitted_def CHECK_def Let_def and_then_def
               split: if_splits sum.splits)
    from add_task_to_actor_queue_frame [OF a] dispatch_actor_task_frame [OF d]
    show ?thesis by (blast intro: same_queues_trans)
  next
    case False
    with assms Some have
      "give_task_to_local_scheduler state algorithm_state tspec tsize (local_scheduler_id mapping)
         = Inr (state1, algorithm_state1)"
      by (auto simp: handle_actor_task_submitted_def CHECK_def Let_def split: if_splits)
    from give_task_to_local_scheduler_frame [OF this] show ?thesis by simp
  qed
qed

lemma resubmit_cached_loop_same_queues:
  "resubmit_cached_loop i left state algorithm_state = Inr (state1, algorithm_state1)
   \<Longrightarrow> same_queues algorithm_state1 algorithm_state"
proof (induction left arbitrary: i state algorithm_state)
  case 0
  then show ?case by simp
next
  case (Suc left)
  from Suc.prems obtain state2 algorithm_state2 where
    h: "handle_actor_task_submitted state algorithm_state
          (cached_submitted_actor_tasks algorithm_state ! i)
          (cached_submitted_actor_task_sizes algorithm_state ! i) = Inr (state2, algorithm_state2)"
    and r: "resubmit_cached_loop (Suc i) left state2 algorithm_state2 = Inr (state1, algorithm_state1)"
    by (auto simp: and_then_def split: if_splits sum.splits)
  from Suc.IH [OF r] handle_actor_task_submitted_same_queues [OF h]
  show ?case by (rule same_queues_trans)
qed

lemma handle_actor_creation_notification_same_queues:
  assumes "handle_actor_creation_notification state algorithm_state aid = Inr (state1, algorithm_state1)"
  shows "same_queues algorithm_state1 algorithm_state"
proof -
  from assms obtain state2 algorithm_state2 where
    r: "resubmit_cached_loop 0 (length (cached_submitted_actor_tasks algorithm_state))
          state algorithm_state = Inr (state2, algorithm_state2)"
    and e: "same_queues algorithm_state1 algorithm_state2"
    by (auto simp: handle_actor_creation_notification_def CHECK_def Let_def and_then_def
             split: if_splits sum.splits)
  from e resubmit_cached_loop_same_queues [OF r] show ?thesis by (rule same_queues_trans)
qed

lemma handle_actor_task_scheduled_same_queues:
  assumes "handle_actor_task_scheduled state algorithm_state tspec tsize = Inr (state1, algorithm_state1)"
  shows "same_queues algorithm_state1 algorithm_state"
proof -
  from assms obtain state0 state2 algorithm_state2 b where
    a: "add_task_to_actor_queue state0 algorithm_state tspec tsize True = Inr (state2, algorithm_state2)"
    and d: "dispatch_actor_task state2 algorithm_state2 (TaskSpec_actor_id tspec)
                = Inr (b, state1, algorithm_state1)"
    by (auto simp: handle_actor_task_scheduled_def DCHECK_def CHECK_def Let_def and_then_def
             split: if_splits sum.splits option.splits)
  from add_task_to_actor_queue_frame [OF a] dispatch_actor_task_frame [OF d]
  show ?thesis by (blast intro: same_queues_trans)
qed

lemma handle_actor_worker_available_same_queues:
  assumes "handle_actor_worker_available state algorithm_state client = Inr (state1, algorithm_state1)"
  shows "same_queues algorithm_state1 algorithm_state"
proof -
  from assms obtain algorithm_state0 b where
    d: "dispatch_actor_task state algorithm_state0 (client_actor_id client)
                = Inr (b, state1, algorithm_state1)"
    and e: "same_queues algorithm_state0 algorithm_state"
    by (auto simp: handle_actor_worker_available_def CHECK_def Let_def and_then_def
             split: if_splits sum.splits option.splits)
  from dispatch_actor_task_frame [OF d] e show ?thesis by (blast intro: same_queues_trans)
qed

lemma handle_actor_worker_connect_same_queues:
  assumes "handle_actor_worker_connect state algorithm_state aid client = Inr (state1, algorithm_state1)"
  shows "same_queues algorithm_state1 algorithm_state"
proof -
  from assms obtain algorithm_state0 b where
    d: "dispatch_actor_task state algorithm_state0 aid = Inr (b, state1, algorithm_state1)"
    and e: "same_queues algorithm_state0 algorithm_state"
    by (auto simp: handle_actor_worker_connect_def and_then_def
             split: sum.splits option.splits dest: create_actor_frame)
  from dispatch_actor_task_frame [OF d] e show ?thesis by (blast intro: same_queues_trans)
qed

lemma remove_actor_same_queues:
  "remove_actor state algorithm_state aid = Inr (state1, algorithm_state1)
   \<Longrightarrow> same_queues algorithm_state1 algorithm_state"
  by (auto simp: remove_actor_def Let_def split: option.splits)

lemma requeue_dependent_loop_same_workers:
  "same_workers (requeue_dependent_loop algorithm_state oid kept rest) algorithm_state"
proof (induction rest arbitrary: algorithm_state kept)
  case Nil
  then show ?case by simp
next
  case (Cons task rest)
  show ?case
  proof (cases "TaskSpec_is_dependent_on (spec task) oid")
    case True
    let ?a = "algorithm_state
                \<lparr>waiting_task_queue :=
                   waiting_task_queue algorithm_state @ [(next_node algorithm_state, task)],
                 next_node := Suc (next_node algorithm_state),
                 dispatch_task_queue := kept @ rest\<rparr>"
    from Cons [of ?a kept] have "same_workers (requeue_dependent_loop ?a oid kept rest) ?a" .
    moreover have "same_workers ?a algorithm_state" by (simp add: same_workers_def)
    ultimately have "same_workers (requeue_dependent_loop ?a oid kept rest) algorithm_state"
      by (rule same_workers_trans)
    with True show ?thesis by simp
  next
    case False
    with Cons [of algorithm_state "kept @ [task]"] show ?thesis by simp
  qed
qed

lemma track_args_loop_frame:
  "track_args_loop state algorithm_state it oid as = (state1, algorithm_state1)
   \<Longrightarrow> only_calls_differ state1 state \<and> only_remote_differs algorithm_state1 algorithm_state"
proof (induction as arbitrary: state algorithm_state)
  case Nil
  then show ?case by simp
next
  case (Cons a as)
  show ?case
  proof (cases a)
    case (ArgByVal v)
    with Cons show ?thesis by simp
  next
    case (ArgByRef arg_id)
    show ?thesis
    proof (cases "arg_id = oid")
      case False
      with Cons ArgByRef show ?thesis by simp
    next
      case True
      obtain state2 algorithm_state2 where
        f: "fetch_missing_dependency state algorithm_state it oid = (state2, algorithm_state2)"
        by (cases "fetch_missing_dependency state algorithm_state it oid")
      with Cons.prems ArgByRef True have
        "track_args_loop state2 algorithm_state2 it oid as = (state1, algorithm_state1)" by simp
      from Cons.IH [OF this] fetch_missing_dependency_frame [OF f]
      show ?thesis by (blast intro: only_calls_differ_trans only_remote_differs_trans)
    qed
  qed
qed

lemma track_waiting_loop_frame:
  "track_waiting_loop state algorithm_state oid nodes = (state1, algorithm_state1)
   \<Longrightarrow> only_calls_differ state1 state \<and> only_remote_differs algorithm_state1 algorithm_state"
proof (induction nodes arbitrary: state algorithm_state)
  case Nil
  then show ?case by simp
next
  case (Cons node nodes)
  obtain it task where n: "node = (it, task)" by (cases node)
  obtain state2 algorithm_state2 where
    t: "track_args_loop state algorithm_state it oid (TaskSpec_args (spec task))
          = (state2, algorithm_state2)"
    by (cases "track_args_loop state algorithm_state it oid (TaskSpec_args (spec task))")
  with Cons.prems n have "track_waiting_loop state2 algorithm_state2 oid nodes
      = (state1, algorithm_state1)" by simp
  from Cons.IH [OF this] track_args_loop_frame [OF t]
  show ?case by (blast intro: only_calls_differ_trans only_remote_differs_trans)
qed

lemma handle_object_removed_same_workers:
  assumes "handle_object_removed state algorithm_state oid = Inr (state1, algorithm_state1)"
  shows "same_workers algorithm_state1 algorithm_state"
proof -
  let ?a1 = "algorithm_state\<lparr>local_objects := (local_objects algorithm_state)(oid := None)\<rparr>"
  let ?a2 = "requeue_dependent_loop ?a1 oid [] (dispatch_task_queue ?a1)"
  from assms have "track_waiting_loop state ?a2 oid (waiting_task_queue ?a2)
      = (state1, algorithm_state1)"
    by (simp add: handle_object_removed_def CHECK_def Let_def split: if_splits)
  from track_waiting_loop_frame [OF this]
  have "same_workers algorithm_state1 ?a2"
    by (simp add: only_remote_differs_def same_workers_def)
  moreover have "same_workers ?a2 ?a1" by (rule requeue_dependent_loop_same_workers)
  ultimately have "same_workers algorithm_state1 ?a1" by (rule same_workers_trans)
  then show ?thesis by (simp add: same_workers_def)
qed

lemma handle_task_submitted_steps:
  assumes "handle_task_submitted state algorithm_state tspec tsize = Inr (state1, algorithm_state1)"
  obtains state2 algorithm_state2 where
    "only_calls_differ state2 state" "enqueue_frame algorithm_state algorithm_state2"
    "set (dispatch_task_queue algorithm_state2)
       \<subseteq> insert (TaskQueueEntry_init tspec tsize) (set (dispatch_task_queue algorithm_state))"
    "dispatch_tasks state2 algorithm_state2 = (state1, algorithm_state1)"
proof -
  let ?pre = "if resource_constraints_satisfied state tspec
           \<and> length (available_workers algorithm_state) > 0
           \<and> can_run algorithm_state tspec
        then Inr (queue_dispatch_task state algorithm_state tspec tsize False)
        else give_task_to_global_scheduler state algorithm_state tspec tsize"
  show ?thesis
  proof (cases ?pre)
    case (Inl e)
    with assms show ?thesis by (simp add: handle_task_submitted_def and_then_def)
  next
    case (Inr p)
    obtain state2 algorithm_state2 where p: "p = (state2, algorithm_state2)" by (cases p)
    from Inr p assms have d: "dispatch_tasks state2 algorithm_state2 = (state1, algorithm_state1)"
      by (simp add: handle_task_submitted_def and_then_def)
    from Inr p have f: "only_calls_differ state2 state \<and> enqueue_frame algorithm_state algorithm_state2"
      by (auto split: if_splits
               dest: queue_dispatch_task_frame give_task_to_global_scheduler_frame)
    from Inr p have "set (dispatch_task_queue algorithm_state2)
       \<subseteq> insert (TaskQueueEntry_init tspec tsize) (set (dispatch_task_queue algorithm_state))"
      by (auto split: if_splits dest: queue_dispatch_task_result give_task_to_global_scheduler_result)
    with f d show ?thesis by (auto intro: that)
  qed
qed

lemma handle_task_submitted_workers_disjoint:
  assumes "handle_task_submitted state algorithm_state tspec tsize = Inr (state1, algorithm_state1)"
      and "workers_disjoint algorithm_state"
  shows "workers_disjoint algorithm_state1"
proof -
  from assms(1) obtain state2 algorithm_state2 where
    q: "enqueue_frame algorithm_state algorithm_state2"
    and d: "dispatch_tasks state2 algorithm_state2 = (state1, algorithm_state1)"
    by (rule handle_task_submitted_steps)
  from dispatch_tasks_workers_disjoint [OF d enqueue_frame_workers_disjoint [OF q assms(2)]]
  show ?thesis .
qed

lemma handle_task_scheduled_steps:
  assumes "handle_task_scheduled state algorithm_state tspec tsize = Inr (state1, algorithm_state1)"
  obtains state2 algorithm_state2 where
    "only_calls_differ state2 state" "enqueue_frame algorithm_state algorithm_state2"
    "set (dispatch_task_queue algorithm_state2)
       \<subseteq> insert (TaskQueueEntry_init tspec tsize) (set (dispatch_task_queue algorithm_state))"
    "dispatch_tasks state2 algorithm_state2 = (state1, algorithm_state1)"
proof (cases "queue_task_locally state algorithm_state tspec tsize True")
  case (Inl e)
  with assms show ?thesis
    by (simp add: handle_task_scheduled_def and_then_def DCHECK_def CHECK_def split: if_splits)
next
  case (Inr p)
  obtain state2 algorithm_state2 where p: "p = (state2, algorithm_state2)" by (cases p)
  from Inr p assms have d: "dispatch_tasks state2 algorithm_state2 = (state1, algorithm_state1)"
    by (simp add: handle_task_scheduled_def and_then_def DCHECK_def CHECK_def split: if_splits)
  from queue_task_locally_frame [OF Inr [unfolded p]] queue_task_locally_result [OF Inr [unfolded p]] d
  show ?thesis by (auto intro: that)
qed

lemma handle_task_scheduled_workers_disjoint:
  assumes "handle_task_scheduled state algorithm_state tspec tsize = Inr (state1, algorithm_state1)"
      and "workers_disjoint algorithm_state"
  shows "workers_disjoint algorithm_state1"
proof -
  from assms(1) obtain state2 algorithm_state2 where
    q: "enqueue_frame algorithm_state algorithm_state2"
    and d: "dispatch_tasks state2 algorithm_state2 = (state1, algorithm_state1)"
    by (rule handle_task_scheduled_steps)
  from dispatch_tasks_workers_disjoint [OF d enqueue_frame_workers_disjoint [OF q assms(2)]]
  show ?thesis .
qed

lemma handle_object_available_workers_disjoint:
  assumes "handle_object_available state algorithm_state oid = Inr (state1, algorithm_state1)"
      and "workers_disjoint algorithm_state"
  shows "workers_disjoint algorithm_state1"
proof -
  obtain entry remote where
    er: "(case map_of (remote_objects algorithm_state) oid of
               Some found \<Rightarrow> (found, AList.delete oid (remote_objects algorithm_state))
             | None \<Rightarrow> (\<lparr>object_id = oid, dependent_tasks = []\<rparr>, remote_objects algorithm_state))
         = (entry, remote)"
    by (cases "case map_of (remote_objects algorithm_state) oid of
               Some found \<Rightarrow> (found, AList.delete oid (remote_objects algorithm_state))
             | None \<Rightarrow> (\<lparr>object_id = oid, dependent_tasks = []\<rparr>, remote_objects algorithm_state)")
  let ?a1 = "algorithm_state
               \<lparr>remote_objects := remote,
                local_objects := (local_objects algorithm_state)(oid \<mapsto> entry)\<rparr>"
  have w1: "workers_disjoint ?a1" using assms(2) by (simp add: workers_disjoint_def)
  show ?thesis
  proof (cases "dependent_tasks entry = []")
    case True
    with assms(1) er have "algorithm_state1 = ?a1"
      by (auto simp: handle_object_available_def CHECK_def split: if_splits)
    with w1 show ?thesis by simp
  next
    case False
    with assms(1) er obtain algorithm_state2 where
      m: "move_dependent_tasks ?a1 (dependent_tasks entry) = Inr algorithm_state2"
      and d: "dispatch_tasks state algorithm_state2 = (state1, algorithm_state1)"
      by (auto simp: handle_object_available_def CHECK_def and_then_def
               split: if_splits sum.splits)
    from dispatch_tasks_workers_disjoint
      [OF d enqueue_frame_workers_disjoint [OF move_dependent_tasks_enqueue_frame [OF m] w1]]
    show ?thesis .
  qed
qed

lemma handle_driver_removed_same_workers:
  "handle_driver_removed state algorithm_state driver = Inr (state1, algorithm_state1)
   \<Longrightarrow> same_workers algorithm_state1 algorithm_state"
  by (auto simp: handle_driver_removed_def and_then_def same_workers_def split: sum.splits)

lemma handle_event_workers_disjoint:
  assumes "handle_event ev state algorithm_state = Inr (state1, algorithm_state1)"
      and "workers_disjoint algorithm_state"
  shows "workers_disjoint algorithm_state1"
proof (cases ev)
  case (Task_submitted tspec tsize)
  with assms show ?thesis by (auto dest: handle_task_submitted_workers_disjoint)
next
  case (Actor_task_submitted tspec tsize)
  with assms show ?thesis
    by (auto dest!: handle_actor_task_submitted_same_queues same_queues_workers
             intro: same_workers_disjoint)
next
  case (Task_scheduled tspec tsize)
  with assms show ?thesis by (auto dest: handle_task_scheduled_workers_disjoint)
next
  case (Actor_task_scheduled tspec tsize)
  with assms show ?thesis
    by (auto dest!: handle_actor_task_scheduled_same_queues same_queues_workers
             intro: same_workers_disjoint)
next
  case (Actor_creation_notification aid)
  with assms show ?thesis
    by (auto dest!: handle_actor_creation_notification_same_queues same_queues_workers
             intro: same_workers_disjoint)
next
  case (Worker_available client)
  with assms show ?thesis by (auto dest: handle_worker_available_workers_disjoint)
next
  case (Worker_removed client)
  with assms show ?thesis by (auto dest: handle_worker_removed_workers_disjoint)
next
  case (Worker_blocked client)
  with assms show ?thesis by (auto dest: handle_worker_blocked_workers_disjoint)
next
  case (Worker_unblocked client)
  with assms show ?thesis by (auto dest: handle_worker_unblocked_workers_disjoint)
next
  case (Actor_worker_available client)
  with assms show ?thesis
    by (auto dest!: handle_actor_worker_available_same_queues same_queues_workers
             intro: same_workers_disjoint)
next
  case (Actor_worker_connect aid client)
  with assms show ?thesis
    by (auto dest!: handle_actor_worker_connect_same_queues same_queues_workers
             intro: same_workers_disjoint)
next
  case (Actor_worker_disconnect aid)
  with assms show ?thesis
    by (auto simp: handle_actor_worker_disconnect_def
             dest!: remove_actor_same_queues same_queues_workers
             intro: same_workers_disjoint)
next
  case (Object_available oid)
  with assms show ?thesis by (auto dest: handle_object_available_workers_disjoint)
next
  case (Object_removed oid)
  with assms show ?thesis
    by (auto dest!: handle_object_removed_same_workers intro: same_workers_disjoint)
next
  case (Driver_removed driver)
  with assms show ?thesis
    by (auto dest!: handle_driver_removed_same_workers intro: same_workers_disjoint)
next
  case Fetch_timer_tick
  with assms show ?thesis
    by (auto simp: fetch_object_timeout_handler_def Let_def split: if_splits)
qed

lemma reachable_workers_distinct: "reachable algorithm_state \<Longrightarrow> workers_disjoint algorithm_state"
proof (induction rule: reachable.induct)
  case reachable_init
  show ?case by (simp add: workers_disjoint_def SchedulingAlgorithmState_init_def)
next
  case (reachable_step algorithm_state ev state state1 algorithm_state1)
  then show ?case by (auto dest: handle_event_workers_disjoint)
qed

lemma workers_disjoint_sets:
  "workers_disjoint a \<Longrightarrow>
     set (available_workers a) \<inter> set (executing_workers a) = {}
   \<and> set (available_workers a) \<inter> set (blocked_workers a) = {}
   \<and> set (executing_workers a) \<inter> set (blocked_workers a) = {}
   \<and> distinct (available_workers a) \<and> distinct (executing_workers a)
   \<and> distinct (blocked_workers a)"
  by (auto simp: workers_disjoint_def)

text \<open>
  C6: in every reachable state no worker is in two of the sequences of available,
  executing and blocked workers, and every handler that returns from a reachable state
  returns a state with the same property (the worker events, and every event that ends in
  \<^verbatim>\<open>dispatch_tasks\<close>, included).
\<close>

theorem reachable_workers_disjoint:
  assumes "reachable algorithm_state"
  shows "set (available_workers algorithm_state) \<inter> set (executing_workers algorithm_state) = {}
       \<and> set (available_workers algorithm_state) \<inter> set (blocked_workers algorithm_state) = {}
       \<and> set (executing_workers algorithm_state) \<inter> set (blocked_workers algorithm_state) = {}
       \<and> (\<forall>ev state state1 algorithm_state1.
             handle_event ev state algorithm_state = Inr (state1, algorithm_state1)
             \<longrightarrow> set (available_workers algorithm_state1) \<inter> set (executing_workers algorithm_state1) = {}
               \<and> set (available_workers algorithm_state1) \<inter> set (blocked_workers algorithm_state1) = {}
               \<and> set (executing_workers algorithm_state1) \<inter> set (blocked_workers algorithm_state1) = {})"
proof -
  from assms have w: "workers_disjoint algorithm_state" by (rule reachable_workers_distinct)
  have "workers_disjoint algorithm_state1"
    if "handle_event ev state algorithm_state = Inr (state1, algorithm_state1)"
    for ev state state1 algorithm_state1
    using that w by (rule handle_event_workers_disjoint)
  with w show ?thesis by (blast dest: workers_disjoint_sets)
qed

text \<open>C6, at a concrete input: worker 5 becomes available in the initial state; a task
  scheduled then is assigned to it, and it moves to the executing workers.\<close>

theorem reachable_workers_disjoint_witness:
  "reachable example_worker_algorithm_state
   \<and> (\<exists>state1 algorithm_state1.
        handle_event (Task_scheduled (example_task 2 1 []) 8) example_state
          example_worker_algorithm_state = Inr (state1, algorithm_state1)
      \<and> available_workers algorithm_state1 = []
      \<and> executing_workers algorithm_state1 = [5]
      \<and> set (available_workers algorithm_state1) \<inter> set (executing_workers algorithm_state1) = {}
      \<and> set (available_workers algorithm_state1) \<inter> set (blocked_workers algorithm_state1) = {}
      \<and> set (executing_workers algorithm_state1) \<inter> set (blocked_workers algorithm_state1) = {})"
proof -
  have "handle_event (Worker_available (example_client 5)) example_state SchedulingAlgorithmState_init
          = Inr (example_state, example_worker_algorithm_state)"
    by (simp add: handle_worker_available_def CHECK_def DCHECK_def worker_in_vector_def
          remove_worker_from_vector_def dispatch_tasks_def example_client_def
          example_worker_algorithm_state_def SchedulingAlgorithmState_init_def)
  with reachable_init have r: "reachable example_worker_algorithm_state" by (rule reachable_step)
  obtain state1 algorithm_state1 where
    h: "handle_event (Task_scheduled (example_task 2 1 []) 8) example_state
          example_worker_algorithm_state = Inr (state1, algorithm_state1)"
    and v: "available_workers algorithm_state1 = []" "executing_workers algorithm_state1 = [5]"
    by (simp add: handle_task_scheduled_def DCHECK_def CHECK_def and_then_def
          queue_task_locally_def can_run_def queue_dispatch_task_def queue_task_def
          update_task_table_def dispatch_tasks_def resources_available_def task_satisfied_def
          resource_indices assign_task_to_worker_def record_call_def TaskQueueEntry_free_def
          TaskQueueEntry_init_def example_task_def example_state_def
          example_worker_algorithm_state_def SchedulingAlgorithmState_init_def)
  from reachable_workers_disjoint [OF r] h
  have "set (available_workers algorithm_state1) \<inter> set (executing_workers algorithm_state1) = {}
      \<and> set (available_workers algorithm_state1) \<inter> set (blocked_workers algorithm_state1) = {}
      \<and> set (executing_workers algorithm_state1) \<inter> set (blocked_workers algorithm_state1) = {}"
    by blast
  with r h v show ?thesis by blast
qed

section \<open>A task that exceeds the static capacity\<close>

lemma task_satisfied_exceeds:
  "k < ResourceIndex_MAX \<Longrightarrow> dynamic_resources state k < TaskSpec_get_required_resource tspec k
   \<Longrightarrow> \<not> task_satisfied state tspec"
  by (auto simp: task_satisfied_iff not_le)

lemma dispatch_tasks_loop_oversized:
  assumes "dispatch_tasks_loop state algorithm_state skipped rest = (state1, algorithm_state1)"
      and "dispatch_task_queue algorithm_state = skipped @ rest"
      and "k < ResourceIndex_MAX"
      and "dynamic_resources state k \<le> bound"
      and "\<forall>u\<in>set rest. 0 \<le> TaskSpec_get_required_resource (spec u) k"
  shows "filter (\<lambda>u. bound < TaskSpec_get_required_resource (spec u) k)
           (dispatch_task_queue algorithm_state1)
         = filter (\<lambda>u. bound < TaskSpec_get_required_resource (spec u) k) (skipped @ rest)
       \<and> (\<exists>new. calls state1 = calls state @ new
             \<and> (\<forall>tspec tsize w. Assign_task_to_worker tspec tsize w \<in> set new
                    \<longrightarrow> \<not> bound < TaskSpec_get_required_resource tspec k))"
  using assms(1,2,4,5)
proof (induction rest arbitrary: state algorithm_state skipped)
  case Nil
  then show ?case by simp
next
  case (Cons task rest)
  show ?case
  proof (cases "available_workers algorithm_state = [] \<or> \<not> resources_available state")
    case True
    with Cons.prems(1) have "algorithm_state1 = algorithm_state"
      and "\<exists>new. calls state1 = calls state @ new \<and> (\<forall>tspec tsize w. Assign_task_to_worker tspec tsize w \<notin> set new)"
      by (auto split: if_splits)
    with Cons.prems(2) show ?thesis by auto
  next
    case False
    show ?thesis
    proof (cases "task_satisfied state (spec task)")
      case True
      let ?w = "last (available_workers algorithm_state)"
      let ?st = "TaskQueueEntry_free (record_call (Print_resource_info (spec task))
             (assign_task_to_worker state (spec task) (task_spec_size task) (Some ?w))) task"
      let ?al = "algorithm_state
              \<lparr>available_workers := butlast (available_workers algorithm_state),
               executing_workers := executing_workers algorithm_state @ [?w],
               dispatch_task_queue := skipped @ rest\<rparr>"
      from True False Cons.prems(1) have
        l: "dispatch_tasks_loop ?st ?al skipped rest = (state1, algorithm_state1)"
        by (simp add: Let_def)
      from True assms(3) have fits: "TaskSpec_get_required_resource (spec task) k
            \<le> dynamic_resources state k"
        by (simp add: task_satisfied_iff)
      with Cons.prems(3) have small: "\<not> bound < TaskSpec_get_required_resource (spec task) k"
        by simp
      from Cons.prems(4) have nonneg: "0 \<le> TaskSpec_get_required_resource (spec task) k" by simp
      with Cons.prems(3) assms(3) have d: "dynamic_resources ?st k \<le> bound"
        by (simp add: assign_task_to_worker_def record_call_def TaskQueueEntry_free_def)
      have q: "dispatch_task_queue ?al = skipped @ rest" by simp
      from Cons.prems(4) have r: "\<forall>u\<in>set rest. 0 \<le> TaskSpec_get_required_resource (spec u) k"
        by simp
      from Cons.IH [OF l q d r] obtain new where
        f: "filter (\<lambda>u. bound < TaskSpec_get_required_resource (spec u) k)
              (dispatch_task_queue algorithm_state1)
            = filter (\<lambda>u. bound < TaskSpec_get_required_resource (spec u) k) (skipped @ rest)"
        and n: "calls state1 = calls ?st @ new"
          "\<forall>tspec tsize w. Assign_task_to_worker tspec tsize w \<in> set new
                    \<longrightarrow> \<not> bound < TaskSpec_get_required_resource tspec k"
        by blast
      let ?new = "[Assign_task_to_worker (spec task) (task_spec_size task) (Some ?w),
                   Print_resource_info (spec task), Free_TaskSpec (spec task)] @ new"
      from n(1) have "calls state1 = calls state @ ?new"
        by (simp add: assign_task_to_worker_def record_call_def TaskQueueEntry_free_def)
      moreover from n(2) small have "\<forall>tspec tsize w. Assign_task_to_worker tspec tsize w \<in> set ?new
                    \<longrightarrow> \<not> bound < TaskSpec_get_required_resource tspec k"
        by auto
      ultimately show ?thesis using f small by (intro conjI exI [of _ ?new]) simp_all
    next
      case sat: False
      with False Cons.prems(1) have
        l: "dispatch_tasks_loop state algorithm_state (skipped @ [task]) rest
          = (state1, algorithm_state1)" by simp
      from Cons.prems(2) have q: "dispatch_task_queue algorithm_state = (skipped @ [task]) @ rest"
        by simp
      from Cons.prems(4) have r: "\<forall>u\<in>set rest. 0 \<le> TaskSpec_get_required_resource (spec u) k"
        by simp
      from Cons.IH [OF l q Cons.prems(3) r] show ?thesis by simp
    qed
  qed
qed

lemma dispatch_tasks_oversized:
  assumes "dispatch_tasks state algorithm_state = (state1, algorithm_state1)"
      and "k < ResourceIndex_MAX"
      and "dynamic_resources state k \<le> static_resources state k"
      and "static_resources state k < TaskSpec_get_required_resource (spec t) k"
      and "\<forall>u\<in>set (dispatch_task_queue algorithm_state).
             0 \<le> TaskSpec_get_required_resource (spec u) k"
      and "t \<in> set (dispatch_task_queue algorithm_state)"
  shows "t \<in> set (dispatch_task_queue algorithm_state1)
       \<and> (\<forall>w. Assign_task_to_worker (spec t) (task_spec_size t) w
                \<notin> set (drop (length (calls state)) (calls state1)))"
proof -
  let ?P = "\<lambda>u. static_resources state k < TaskSpec_get_required_resource (spec u) k"
  have q: "dispatch_task_queue algorithm_state = [] @ dispatch_task_queue algorithm_state"
    by simp
  from dispatch_tasks_loop_oversized
    [OF assms(1) [unfolded dispatch_tasks_def] q assms(2,3,5)]
  obtain new where
    f: "filter ?P (dispatch_task_queue algorithm_state1)
          = filter ?P (dispatch_task_queue algorithm_state)"
    and n: "calls state1 = calls state @ new"
      "\<forall>tspec tsize w. Assign_task_to_worker tspec tsize w \<in> set new
                    \<longrightarrow> \<not> static_resources state k < TaskSpec_get_required_resource tspec k"
    by auto
  from assms(4,6) have "t \<in> set (filter ?P (dispatch_task_queue algorithm_state))" by simp
  with f have "t \<in> set (filter ?P (dispatch_task_queue algorithm_state1))" by simp
  then have "t \<in> set (dispatch_task_queue algorithm_state1)" by simp
  moreover from n assms(4) have "\<forall>w. Assign_task_to_worker (spec t) (task_spec_size t) w
                \<notin> set (drop (length (calls state)) (calls state1))"
    by auto
  ultimately show ?thesis ..
qed

lemma only_calls_differ_resources:
  "only_calls_differ s t \<Longrightarrow> dynamic_resources s = dynamic_resources t
     \<and> static_resources s = static_resources t"
  by (simp add: only_calls_differ_def)

lemma enqueue_frame_member:
  "enqueue_frame a b \<Longrightarrow> t \<in> set (dispatch_task_queue a) \<Longrightarrow> t \<in> set (dispatch_task_queue b)"
  by (auto simp: enqueue_frame_def)

lemma handle_worker_available_steps:
  assumes "handle_worker_available state algorithm_state client = Inr (state1, algorithm_state1)"
  obtains algorithm_state0 where
    "dispatch_task_queue algorithm_state0 = dispatch_task_queue algorithm_state"
    "dispatch_tasks state algorithm_state0 = (state1, algorithm_state1)"
proof -
  let ?a = "algorithm_state\<lparr>executing_workers :=
       snd (remove_worker_from_vector (executing_workers algorithm_state) (client_ptr client)),
       available_workers := available_workers algorithm_state @ [client_ptr client]\<rparr>"
  from assms have "dispatch_tasks state ?a = (state1, algorithm_state1)"
    by (simp add: handle_worker_available_def CHECK_def DCHECK_def Let_def split: if_splits)
  moreover have "dispatch_task_queue ?a = dispatch_task_queue algorithm_state" by simp
  ultimately show ?thesis by (rule that [rotated])
qed

lemma handle_worker_blocked_steps:
  assumes "handle_worker_blocked state algorithm_state client = Inr (state1, algorithm_state1)"
  obtains algorithm_state0 where
    "dispatch_task_queue algorithm_state0 = dispatch_task_queue algorithm_state"
    "dispatch_tasks state algorithm_state0 = (state1, algorithm_state1)"
proof -
  let ?a = "algorithm_state\<lparr>executing_workers :=
       snd (remove_worker_from_vector (executing_workers algorithm_state) (client_ptr client)),
       blocked_workers := blocked_workers algorithm_state @ [client_ptr client]\<rparr>"
  from assms have "dispatch_tasks state ?a = (state1, algorithm_state1)"
    by (simp add: handle_worker_blocked_def CHECK_def DCHECK_def Let_def split_beta
             split: if_splits)
  moreover have "dispatch_task_queue ?a = dispatch_task_queue algorithm_state" by simp
  ultimately show ?thesis by (rule that [rotated])
qed

lemma handle_worker_removed_dispatch:
  "handle_worker_removed state algorithm_state client = Inr (state1, algorithm_state1)
   \<Longrightarrow> dispatch_task_queue algorithm_state1 = dispatch_task_queue algorithm_state"
  by (auto simp: handle_worker_removed_def CHECK_def DCHECK_def Let_def split_beta
           split: if_splits)

lemma handle_worker_unblocked_dispatch:
  "handle_worker_unblocked state algorithm_state client = Inr (state1, algorithm_state1)
   \<Longrightarrow> dispatch_task_queue algorithm_state1 = dispatch_task_queue algorithm_state"
  by (auto simp: handle_worker_unblocked_def CHECK_def DCHECK_def Let_def split_beta
           split: if_splits)

lemma same_queues_dispatch:
  "same_queues b a \<Longrightarrow> dispatch_task_queue b = dispatch_task_queue a"
  by (simp add: same_queues_def)

lemma move_dependent_tasks_sources:
  "move_dependent_tasks algorithm_state its = Inr algorithm_state1
   \<Longrightarrow> set (dispatch_task_queue algorithm_state1)
        \<subseteq> set (dispatch_task_queue algorithm_state) \<union> snd ` set (waiting_task_queue algorithm_state)"
proof (induction its arbitrary: algorithm_state)
  case Nil
  then show ?case by simp
next
  case (Cons it its)
  from Cons.prems obtain task where t: "map_of (waiting_task_queue algorithm_state) it = Some task"
    by (auto split: option.splits)
  from map_of_SomeD [OF t] have m: "task \<in> snd ` set (waiting_task_queue algorithm_state)"
    by force
  show ?case
  proof (cases "can_run algorithm_state (spec task)")
    case True
    let ?a = "algorithm_state
                    \<lparr>dispatch_task_queue := dispatch_task_queue algorithm_state @ [task],
                     waiting_task_queue := AList.delete it (waiting_task_queue algorithm_state)\<rparr>"
    from Cons.prems t True have "move_dependent_tasks ?a its = Inr algorithm_state1" by simp
    from Cons.IH [OF this] have "set (dispatch_task_queue algorithm_state1)
        \<subseteq> set (dispatch_task_queue ?a) \<union> snd ` set (waiting_task_queue ?a)" .
    moreover have "set (waiting_task_queue ?a) \<subseteq> set (waiting_task_queue algorithm_state)"
      by (auto simp: AList.delete_eq)
    ultimately show ?thesis using m by auto
  next
    case False
    with Cons.prems t Cons.IH [of algorithm_state] show ?thesis by simp
  qed
qed

lemma requeue_dependent_loop_dispatch:
  "dispatch_task_queue algorithm_state = kept @ rest
   \<Longrightarrow> dispatch_task_queue (requeue_dependent_loop algorithm_state oid kept rest)
       = kept @ filter (\<lambda>u. \<not> TaskSpec_is_dependent_on (spec u) oid) rest"
proof (induction rest arbitrary: algorithm_state kept)
  case Nil
  then show ?case by simp
next
  case (Cons task rest)
  show ?case
  proof (cases "TaskSpec_is_dependent_on (spec task) oid")
    case True
    let ?a = "algorithm_state
                \<lparr>waiting_task_queue :=
                   waiting_task_queue algorithm_state @ [(next_node algorithm_state, task)],
                 next_node := Suc (next_node algorithm_state),
                 dispatch_task_queue := kept @ rest\<rparr>"
    have "dispatch_task_queue ?a = kept @ rest" by simp
    from Cons.IH [OF this] True show ?thesis by simp
  next
    case False
    from Cons.prems have "dispatch_task_queue algorithm_state = (kept @ [task]) @ rest" by simp
    from Cons.IH [OF this] False show ?thesis by simp
  qed
qed

lemma handle_object_removed_dispatch:
  assumes "handle_object_removed state algorithm_state oid = Inr (state1, algorithm_state1)"
  shows "dispatch_task_queue algorithm_state1
         = filter (\<lambda>u. \<not> TaskSpec_is_dependent_on (spec u) oid) (dispatch_task_queue algorithm_state)"
proof -
  let ?a1 = "algorithm_state\<lparr>local_objects := (local_objects algorithm_state)(oid := None)\<rparr>"
  let ?a2 = "requeue_dependent_loop ?a1 oid [] (dispatch_task_queue ?a1)"
  from assms have "track_waiting_loop state ?a2 oid (waiting_task_queue ?a2)
      = (state1, algorithm_state1)"
    by (simp add: handle_object_removed_def CHECK_def Let_def split: if_splits)
  from track_waiting_loop_frame [OF this]
  have "dispatch_task_queue algorithm_state1 = dispatch_task_queue ?a2"
    by (simp add: only_remote_differs_def)
  also have "\<dots> = [] @ filter (\<lambda>u. \<not> TaskSpec_is_dependent_on (spec u) oid) (dispatch_task_queue ?a1)"
    by (rule requeue_dependent_loop_dispatch) simp
  finally show ?thesis by simp
qed

lemma handle_driver_removed_dispatch:
  "handle_driver_removed state algorithm_state driver = Inr (state1, algorithm_state1)
   \<Longrightarrow> dispatch_task_queue algorithm_state1
       = filter (\<lambda>task. TaskSpec_driver_id (spec task) \<noteq> driver) (dispatch_task_queue algorithm_state)"
  by (auto simp: handle_driver_removed_def and_then_def split: sum.splits)

lemma handle_object_available_steps:
  assumes "handle_object_available state algorithm_state oid = Inr (state1, algorithm_state1)"
  obtains (unchanged) "dispatch_task_queue algorithm_state1 = dispatch_task_queue algorithm_state"
  | (dispatched) algorithm_state2 where
      "enqueue_frame algorithm_state algorithm_state2"
      "set (dispatch_task_queue algorithm_state2)
         \<subseteq> set (dispatch_task_queue algorithm_state) \<union> snd ` set (waiting_task_queue algorithm_state)"
      "dispatch_tasks state algorithm_state2 = (state1, algorithm_state1)"
proof -
  obtain entry remote where
    er: "(case map_of (remote_objects algorithm_state) oid of
               Some found \<Rightarrow> (found, AList.delete oid (remote_objects algorithm_state))
             | None \<Rightarrow> (\<lparr>object_id = oid, dependent_tasks = []\<rparr>, remote_objects algorithm_state))
         = (entry, remote)"
    by (cases "case map_of (remote_objects algorithm_state) oid of
               Some found \<Rightarrow> (found, AList.delete oid (remote_objects algorithm_state))
             | None \<Rightarrow> (\<lparr>object_id = oid, dependent_tasks = []\<rparr>, remote_objects algorithm_state)")
  let ?a1 = "algorithm_state
               \<lparr>remote_objects := remote,
                local_objects := (local_objects algorithm_state)(oid \<mapsto> entry)\<rparr>"
  show ?thesis
  proof (cases "dependent_tasks entry = []")
    case True
    with assms er have "algorithm_state1 = ?a1"
      by (auto simp: handle_object_available_def CHECK_def split: if_splits)
    then have "dispatch_task_queue algorithm_state1 = dispatch_task_queue algorithm_state" by simp
    then show ?thesis by (rule unchanged)
  next
    case False
    with assms er obtain algorithm_state2 where
      m: "move_dependent_tasks ?a1 (dependent_tasks entry) = Inr algorithm_state2"
      and d: "dispatch_tasks state algorithm_state2 = (state1, algorithm_state1)"
      by (auto simp: handle_object_available_def CHECK_def and_then_def
               split: if_splits sum.splits)
    from move_dependent_tasks_enqueue_frame [OF m]
    have "enqueue_frame algorithm_state algorithm_state2"
      by (simp add: enqueue_frame_def same_workers_def)
    moreover from move_dependent_tasks_sources [OF m]
    have "set (dispatch_task_queue algorithm_state2)
         \<subseteq> set (dispatch_task_queue algorithm_state) \<union> snd ` set (waiting_task_queue algorithm_state)"
      by simp
    ultimately show ?thesis using d by (rule dispatched)
  qed
qed

lemma handle_event_oversized_stays:
  assumes h: "handle_event ev state algorithm_state = Inr (state1, algorithm_state1)"
      and k: "k < ResourceIndex_MAX"
      and dyn: "dynamic_resources state k \<le> static_resources state k"
      and big: "static_resources state k < TaskSpec_get_required_resource (spec t) k"
      and nonneg: "demands_nonnegative k algorithm_state ev"
      and keep: "\<not> removes ev t"
      and t: "t \<in> set (dispatch_task_queue algorithm_state)"
  shows "t \<in> set (dispatch_task_queue algorithm_state1)"
proof -
  from nonneg have nd: "\<forall>u\<in>set (dispatch_task_queue algorithm_state).
        0 \<le> TaskSpec_get_required_resource (spec u) k"
    and nw: "\<forall>u\<in>snd ` set (waiting_task_queue algorithm_state).
        0 \<le> TaskSpec_get_required_resource (spec u) k"
    and ne: "\<forall>tspec\<in>set (event_tasks ev). 0 \<le> TaskSpec_get_required_resource tspec k"
    by (auto simp: demands_nonnegative_def list_all_iff)
  have after_dispatch: "t \<in> set (dispatch_task_queue algorithm_state1)"
    if "only_calls_differ state2 state" "t \<in> set (dispatch_task_queue algorithm_state2)"
       "\<forall>u\<in>set (dispatch_task_queue algorithm_state2). 0 \<le> TaskSpec_get_required_resource (spec u) k"
       "dispatch_tasks state2 algorithm_state2 = (state1, algorithm_state1)"
    for state2 algorithm_state2
  proof -
    from that(1) dyn big have "dynamic_resources state2 k \<le> static_resources state2 k"
      "static_resources state2 k < TaskSpec_get_required_resource (spec t) k"
      by (simp_all add: only_calls_differ_def)
    from dispatch_tasks_oversized [OF that(4) k this that(3) that(2)] show ?thesis by simp
  qed
  show ?thesis
  proof (cases ev)
    case (Task_submitted tspec tsize)
    with h have "handle_task_submitted state algorithm_state tspec tsize = Inr (state1, algorithm_state1)"
      by simp
    then obtain state2 algorithm_state2 where
      s: "only_calls_differ state2 state" "enqueue_frame algorithm_state algorithm_state2"
        "set (dispatch_task_queue algorithm_state2)
           \<subseteq> insert (TaskQueueEntry_init tspec tsize) (set (dispatch_task_queue algorithm_state))"
        "dispatch_tasks state2 algorithm_state2 = (state1, algorithm_state1)"
      by (rule handle_task_submitted_steps)
    from s(3) nd ne Task_submitted
    have "\<forall>u\<in>set (dispatch_task_queue algorithm_state2). 0 \<le> TaskSpec_get_required_resource (spec u) k"
      by (auto simp: TaskQueueEntry_init_def)
    from after_dispatch [OF s(1) enqueue_frame_member [OF s(2) t] this s(4)] show ?thesis .
  next
    case (Task_scheduled tspec tsize)
    with h have "handle_task_scheduled state algorithm_state tspec tsize = Inr (state1, algorithm_state1)"
      by simp
    then obtain state2 algorithm_state2 where
      s: "only_calls_differ state2 state" "enqueue_frame algorithm_state algorithm_state2"
        "set (dispatch_task_queue algorithm_state2)
           \<subseteq> insert (TaskQueueEntry_init tspec tsize) (set (dispatch_task_queue algorithm_state))"
        "dispatch_tasks state2 algorithm_state2 = (state1, algorithm_state1)"
      by (rule handle_task_scheduled_steps)
    from s(3) nd ne Task_scheduled
    have "\<forall>u\<in>set (dispatch_task_queue algorithm_state2). 0 \<le> TaskSpec_get_required_resource (spec u) k"
      by (auto simp: TaskQueueEntry_init_def)
    from after_dispatch [OF s(1) enqueue_frame_member [OF s(2) t] this s(4)] show ?thesis .
  next
    case (Actor_task_submitted tspec tsize)
    with h t show ?thesis
      by (auto dest!: handle_actor_task_submitted_same_queues same_queues_dispatch)
  next
    case (Actor_task_scheduled tspec tsize)
    with h t show ?thesis
      by (auto dest!: handle_actor_task_scheduled_same_queues same_queues_dispatch)
  next
    case (Actor_creation_notification aid)
    with h t show ?thesis
      by (auto dest!: handle_actor_creation_notification_same_queues same_queues_dispatch)
  next
    case (Worker_available client)
    with h have "handle_worker_available state algorithm_state client = Inr (state1, algorithm_state1)"
      by simp
    then obtain algorithm_state0 where
      s: "dispatch_task_queue algorithm_state0 = dispatch_task_queue algorithm_state"
         "dispatch_tasks state algorithm_state0 = (state1, algorithm_state1)"
      by (rule handle_worker_available_steps)
    from after_dispatch [OF only_calls_differ_refl _ _ s(2)] s(1) t nd show ?thesis by simp
  next
    case (Worker_removed client)
    with h t show ?thesis by (auto dest!: handle_worker_removed_dispatch)
  next
    case (Worker_blocked client)
    with h have "handle_worker_blocked state algorithm_state client = Inr (state1, algorithm_state1)"
      by simp
    then obtain algorithm_state0 where
      s: "dispatch_task_queue algorithm_state0 = dispatch_task_queue algorithm_state"
         "dispatch_tasks state algorithm_state0 = (state1, algorithm_state1)"
      by (rule handle_worker_blocked_steps)
    from after_dispatch [OF only_calls_differ_refl _ _ s(2)] s(1) t nd show ?thesis by simp
  next
    case (Worker_unblocked client)
    with h t show ?thesis by (auto dest!: handle_worker_unblocked_dispatch)
  next
    case (Actor_worker_available client)
    with h t show ?thesis
      by (auto dest!: handle_actor_worker_available_same_queues same_queues_dispatch)
  next
    case (Actor_worker_connect aid client)
    with h t show ?thesis
      by (auto dest!: handle_actor_worker_connect_same_queues same_queues_dispatch)
  next
    case (Actor_worker_disconnect aid)
    with h t show ?thesis
      by (auto simp: handle_actor_worker_disconnect_def
               dest!: remove_actor_same_queues same_queues_dispatch)
  next
    case (Object_available oid)
    with h have "handle_object_available state algorithm_state oid = Inr (state1, algorithm_state1)"
      by simp
    then show ?thesis
    proof (cases rule: handle_object_available_steps)
      case unchanged
      with t show ?thesis by simp
    next
      case (dispatched algorithm_state2)
      from dispatched(2) nd nw
      have "\<forall>u\<in>set (dispatch_task_queue algorithm_state2). 0 \<le> TaskSpec_get_required_resource (spec u) k"
        by blast
      from after_dispatch [OF only_calls_differ_refl enqueue_frame_member [OF dispatched(1) t]
             this dispatched(3)]
      show ?thesis .
    qed
  next
    case (Object_removed oid)
    with h keep t show ?thesis by (auto dest!: handle_object_removed_dispatch)
  next
    case (Driver_removed driver)
    with h keep t show ?thesis by (auto dest!: handle_driver_removed_dispatch)
  next
    case Fetch_timer_tick
    with h t show ?thesis
      by (auto simp: fetch_object_timeout_handler_def Let_def split: if_splits)
  qed
qed

lemma oversized_run_stays:
  "oversized_run k t algorithm_state algorithm_state2 \<Longrightarrow> k < ResourceIndex_MAX
   \<Longrightarrow> t \<in> set (dispatch_task_queue algorithm_state)
   \<Longrightarrow> t \<in> set (dispatch_task_queue algorithm_state2)"
proof (induction rule: oversized_run.induct)
  case (oversized_run_done algorithm_state)
  then show ?case by simp
next
  case (oversized_run_step state algorithm_state ev state1 algorithm_state1 algorithm_state2)
  from handle_event_oversized_stays
    [OF oversized_run_step.hyps(5) oversized_run_step.prems(1) oversized_run_step.hyps(1,2,3,4)
        oversized_run_step.prems(2)]
  have "t \<in> set (dispatch_task_queue algorithm_state1)" .
  with oversized_run_step.IH oversized_run_step.prems(1) show ?case by simp
qed

text \<open>
  C9: let a task of the dispatch queue demand more of resource \<open>k\<close> than the static
  capacity.  Whenever the available amount of \<open>k\<close> is within the capacity and no queued
  task demands a negative amount of it, \<^verbatim>\<open>dispatch_tasks\<close> (which has no failing outcome)
  leaves the task in the queue and makes no assignment call for it.  And along every run
  of events under these conditions that contains neither the removal of the task's driver
  nor the removal of an object the task depends on, the task is still in the dispatch
  queue at the end.
\<close>

theorem oversized_task_stays_in_dispatch:
  assumes "k < ResourceIndex_MAX"
      and "t \<in> set (dispatch_task_queue algorithm_state)"
  shows "(\<forall>state state1 algorithm_state1.
            dynamic_resources state k \<le> static_resources state k
          \<and> static_resources state k < TaskSpec_get_required_resource (spec t) k
          \<and> list_all (\<lambda>u. 0 \<le> TaskSpec_get_required_resource (spec u) k)
              (dispatch_task_queue algorithm_state)
          \<and> dispatch_tasks state algorithm_state = (state1, algorithm_state1)
          \<longrightarrow> t \<in> set (dispatch_task_queue algorithm_state1)
            \<and> (\<forall>w. Assign_task_to_worker (spec t) (task_spec_size t) w
                     \<notin> set (drop (length (calls state)) (calls state1))))
       \<and> (\<forall>algorithm_state2.
            oversized_run k t algorithm_state algorithm_state2
            \<longrightarrow> t \<in> set (dispatch_task_queue algorithm_state2))"
proof (intro conjI allI impI)
  fix state state1 algorithm_state1
  assume a: "dynamic_resources state k \<le> static_resources state k
          \<and> static_resources state k < TaskSpec_get_required_resource (spec t) k
          \<and> list_all (\<lambda>u. 0 \<le> TaskSpec_get_required_resource (spec u) k)
              (dispatch_task_queue algorithm_state)
          \<and> dispatch_tasks state algorithm_state = (state1, algorithm_state1)"
  then have n: "\<forall>u\<in>set (dispatch_task_queue algorithm_state).
      0 \<le> TaskSpec_get_required_resource (spec u) k"
    by (simp add: list_all_iff)
  from a have d: "dispatch_tasks state algorithm_state = (state1, algorithm_state1)"
    and r: "dynamic_resources state k \<le> static_resources state k"
      "static_resources state k < TaskSpec_get_required_resource (spec t) k"
    by simp_all
  from dispatch_tasks_oversized [OF d assms(1) r n assms(2)]
  show "t \<in> set (dispatch_task_queue algorithm_state1)"
    and "\<And>w. Assign_task_to_worker (spec t) (task_spec_size t) w
                     \<notin> set (drop (length (calls state)) (calls state1))"
    by simp_all
next
  fix algorithm_state2
  assume "oversized_run k t algorithm_state algorithm_state2"
  from oversized_run_stays [OF this assms] show "t \<in> set (dispatch_task_queue algorithm_state2)" .
qed

text \<open>C9, at a concrete input: capacity 2 CPUs, 1 available; a task needing 3 CPUs ahead of
  a task needing 1.  A worker becomes available and takes the second task; then another
  driver is removed.  The first task is still queued.\<close>

theorem oversized_task_stays_in_dispatch_witness:
  "\<exists>state1 algorithm_state1 state2 algorithm_state2.
     handle_event (Worker_available (example_client 6)) example_state
       example_oversized_algorithm_state = Inr (state1, algorithm_state1)
   \<and> handle_event (Driver_removed (ID 2)) example_state algorithm_state1
       = Inr (state2, algorithm_state2)
   \<and> oversized_run 0 (TaskQueueEntry_init (example_task 1 3 []) 8)
       example_oversized_algorithm_state algorithm_state2
   \<and> calls state1 = [Assign_task_to_worker (example_task 2 1 []) 8 (Some 6),
                      Print_resource_info (example_task 2 1 []),
                      Free_TaskSpec (example_task 2 1 [])]
   \<and> dispatch_task_queue algorithm_state1 = [TaskQueueEntry_init (example_task 1 3 []) 8]
   \<and> TaskQueueEntry_init (example_task 1 3 []) 8 \<in> set (dispatch_task_queue algorithm_state2)"
proof -
  let ?t = "TaskQueueEntry_init (example_task 1 3 []) 8"
  let ?a1 = "SchedulingAlgorithmState_init
       \<lparr>dispatch_task_queue := [?t], executing_workers := [6]\<rparr>"
  let ?s1 = "TaskQueueEntry_free
      (record_call (Print_resource_info (example_task 2 1 []))
         (assign_task_to_worker example_state (example_task 2 1 []) 8 (Some 6)))
      (TaskQueueEntry_init (example_task 2 1 []) 8)"
  have e1: "handle_event (Worker_available (example_client 6)) example_state
       example_oversized_algorithm_state = Inr (?s1, ?a1)"
    by (simp add: handle_worker_available_def CHECK_def DCHECK_def worker_in_vector_def
          remove_worker_from_vector_def dispatch_tasks_def example_client_def
          example_oversized_algorithm_state_def SchedulingAlgorithmState_init_def
          resources_available_def task_satisfied_def resource_indices
          TaskQueueEntry_init_def example_task_def example_state_def)
  have e2: "handle_event (Driver_removed (ID 2)) example_state ?a1 = Inr (example_state, ?a1)"
    by (simp add: handle_driver_removed_def and_then_def SchedulingAlgorithmState_init_def
          TaskQueueEntry_init_def example_task_def)
  have r2: "oversized_run 0 ?t ?a1 ?a1"
    by (rule oversized_run_step [OF _ _ _ _ e2 oversized_run_done])
       (simp_all add: example_state_def TaskQueueEntry_init_def example_task_def
          demands_nonnegative_def SchedulingAlgorithmState_init_def)
  have r1: "oversized_run 0 ?t example_oversized_algorithm_state ?a1"
    by (rule oversized_run_step [OF _ _ _ _ e1 r2])
       (simp_all add: example_state_def TaskQueueEntry_init_def example_task_def
          demands_nonnegative_def example_oversized_algorithm_state_def
          SchedulingAlgorithmState_init_def)
  have k: "(0::nat) < ResourceIndex_MAX" by (simp add: ResourceIndex_MAX_def)
  have m: "?t \<in> set (dispatch_task_queue example_oversized_algorithm_state)"
    by (simp add: example_oversized_algorithm_state_def SchedulingAlgorithmState_init_def)
  from oversized_task_stays_in_dispatch [OF k m] r1
  have "?t \<in> set (dispatch_task_queue ?a1)" by blast
  with e1 e2 r1 show ?thesis
    by (intro exI [of _ ?s1] exI [of _ ?a1] exI [of _ example_state] conjI)
       (simp_all add: SchedulingAlgorithmState_init_def TaskQueueEntry_init_def example_state_def)
qed

section \<open>An object removed, then available again\<close>

lemma register_cursors_append:
  "register_cursors remote oid (xs @ ys) = register_cursors (register_cursors remote oid xs) oid ys"
  by (induction xs arbitrary: remote) simp_all

lemma fetch_missing_dependency_remote:
  "fetch_missing_dependency state algorithm_state it oid = (state1, algorithm_state1)
   \<Longrightarrow> only_calls_differ state1 state
     \<and> algorithm_state1 = algorithm_state
          \<lparr>remote_objects := register_cursors (remote_objects algorithm_state) oid [it]\<rparr>"
  by (auto simp: fetch_missing_dependency_def split: option.splits if_splits)

lemma track_args_loop_remote:
  "track_args_loop state algorithm_state it oid as = (state1, algorithm_state1)
   \<Longrightarrow> only_calls_differ state1 state
     \<and> algorithm_state1 = algorithm_state
          \<lparr>remote_objects := register_cursors (remote_objects algorithm_state) oid
             (replicate (count_list as (ArgByRef oid)) it)\<rparr>"
proof (induction as arbitrary: state algorithm_state)
  case Nil
  then show ?case by simp
next
  case (Cons a as)
  show ?case
  proof (cases "a = ArgByRef oid")
    case False
    then have "track_args_loop state algorithm_state it oid (a # as)
        = track_args_loop state algorithm_state it oid as"
      by (cases a) simp_all
    with Cons False show ?thesis by simp
  next
    case True
    obtain state2 algorithm_state2 where
      f: "fetch_missing_dependency state algorithm_state it oid = (state2, algorithm_state2)"
      by (cases "fetch_missing_dependency state algorithm_state it oid")
    with Cons.prems True have
      l: "track_args_loop state2 algorithm_state2 it oid as = (state1, algorithm_state1)" by simp
    from fetch_missing_dependency_remote [OF f] have
      2: "only_calls_differ state2 state"
         "algorithm_state2 = algorithm_state
          \<lparr>remote_objects := register_cursors (remote_objects algorithm_state) oid [it]\<rparr>"
      by simp_all
    from Cons.IH [OF l] have
      1: "only_calls_differ state1 state2"
         "algorithm_state1 = algorithm_state2
          \<lparr>remote_objects := register_cursors (remote_objects algorithm_state2) oid
             (replicate (count_list as (ArgByRef oid)) it)\<rparr>"
      by simp_all
    from 1(1) 2(1) have "only_calls_differ state1 state" by (rule only_calls_differ_trans)
    moreover from 1(2) True have "algorithm_state1 = algorithm_state
          \<lparr>remote_objects := register_cursors (remote_objects algorithm_state) oid
             (replicate (count_list (a # as) (ArgByRef oid)) it)\<rparr>"
      unfolding 2(2) by simp
    ultimately show ?thesis ..
  qed
qed

lemma track_waiting_loop_remote:
  "track_waiting_loop state algorithm_state oid nodes = (state1, algorithm_state1)
   \<Longrightarrow> only_calls_differ state1 state
     \<and> algorithm_state1 = algorithm_state
          \<lparr>remote_objects := register_cursors (remote_objects algorithm_state) oid
             (cursors_of oid nodes)\<rparr>"
proof (induction nodes arbitrary: state algorithm_state)
  case Nil
  then show ?case by (simp add: cursors_of_def)
next
  case (Cons node nodes)
  obtain it task where n: "node = (it, task)" by (cases node)
  obtain state2 algorithm_state2 where
    t: "track_args_loop state algorithm_state it oid (TaskSpec_args (spec task))
          = (state2, algorithm_state2)"
    by (cases "track_args_loop state algorithm_state it oid (TaskSpec_args (spec task))")
  with Cons.prems n have l: "track_waiting_loop state2 algorithm_state2 oid nodes
      = (state1, algorithm_state1)" by simp
  from track_args_loop_remote [OF t] have
    2: "only_calls_differ state2 state"
       "algorithm_state2 = algorithm_state
          \<lparr>remote_objects := register_cursors (remote_objects algorithm_state) oid
             (replicate (count_list (TaskSpec_args (spec task)) (ArgByRef oid)) it)\<rparr>"
    by simp_all
  from Cons.IH [OF l] have
    1: "only_calls_differ state1 state2"
       "algorithm_state1 = algorithm_state2
          \<lparr>remote_objects := register_cursors (remote_objects algorithm_state2) oid
             (cursors_of oid nodes)\<rparr>"
    by simp_all
  from 1(1) 2(1) have "only_calls_differ state1 state" by (rule only_calls_differ_trans)
  moreover from 1(2) have "algorithm_state1 = algorithm_state
          \<lparr>remote_objects := register_cursors (remote_objects algorithm_state) oid
             (cursors_of oid (node # nodes))\<rparr>"
    unfolding 2(2) by (simp add: n cursors_of_def register_cursors_append)
  ultimately show ?case ..
qed

lemma update_absent: "map_of al k = None \<Longrightarrow> AList.update k v al = al @ [(k, v)]"
  by (induction al) (auto split: if_splits)

lemma delete_absent: "map_of al k = None \<Longrightarrow> AList.delete k al = al"
  by (induction al) (auto split: if_splits)

lemma update_last: "map_of al k = None \<Longrightarrow> AList.update k v (al @ [(k, w)]) = al @ [(k, v)]"
  by (induction al) (auto split: if_splits)

lemma delete_last: "map_of al k = None \<Longrightarrow> AList.delete k (al @ [(k, w)]) = al"
  by (induction al) (auto split: if_splits)

lemma map_of_last: "map_of al k = None \<Longrightarrow> map_of (al @ [(k, w)]) k = Some w"
  by (induction al) (auto split: if_splits)

lemma register_cursors_last:
  "map_of remote oid = None
   \<Longrightarrow> register_cursors (remote @ [(oid, \<lparr>object_id = oid, dependent_tasks = xs\<rparr>)]) oid cs
       = remote @ [(oid, \<lparr>object_id = oid, dependent_tasks = xs @ cs\<rparr>)]"
  by (induction cs arbitrary: xs) (simp_all add: map_of_last update_last del: map_of_append)

lemma register_cursors_fresh:
  assumes "map_of remote oid = None"
  shows "register_cursors remote oid cs
         = (if cs = [] then remote
            else remote @ [(oid, \<lparr>object_id = oid, dependent_tasks = cs\<rparr>)])"
proof (cases cs)
  case Nil
  then show ?thesis by simp
next
  case (Cons c cs')
  with assms register_cursors_last [OF assms, of "[c]" cs'] show ?thesis
    by (simp add: update_absent)
qed

lemma fresh_nodes_snd [simp]: "map snd (fresh_nodes n tasks) = tasks"
  by (induction tasks arbitrary: n) simp_all

lemma fresh_nodes_ge: "(it, task) \<in> set (fresh_nodes n tasks) \<Longrightarrow> n \<le> it"
proof (induction tasks arbitrary: n)
  case Nil
  then show ?case by simp
next
  case (Cons t tasks)
  from Cons.prems have "it = n \<or> (it, task) \<in> set (fresh_nodes (Suc n) tasks)" by auto
  then show ?case
  proof
    assume "it = n"
    then show ?thesis by simp
  next
    assume "(it, task) \<in> set (fresh_nodes (Suc n) tasks)"
    from Cons.IH [OF this] show ?thesis by simp
  qed
qed

lemma fresh_nodes_member: "(it, task) \<in> set (fresh_nodes n tasks) \<Longrightarrow> task \<in> set tasks"
  by (induction tasks arbitrary: n) auto

lemma fresh_nodes_distinct: "distinct (map fst (fresh_nodes n tasks))"
proof (induction tasks arbitrary: n)
  case Nil
  then show ?case by simp
next
  case (Cons t tasks)
  have "n \<notin> fst ` set (fresh_nodes (Suc n) tasks)"
    using fresh_nodes_ge [of n _ "Suc n" tasks] by force
  with Cons show ?case by simp
qed

lemma fresh_nodes_length [simp]: "length (fresh_nodes n tasks) = length tasks"
  by (induction tasks arbitrary: n) simp_all

lemma requeue_dependent_loop_effect:
  "dispatch_task_queue algorithm_state = kept @ rest
   \<Longrightarrow> requeue_dependent_loop algorithm_state oid kept rest
       = algorithm_state
           \<lparr>waiting_task_queue := waiting_task_queue algorithm_state
              @ fresh_nodes (next_node algorithm_state)
                  (filter (\<lambda>u. TaskSpec_is_dependent_on (spec u) oid) rest),
            next_node := next_node algorithm_state
              + length (filter (\<lambda>u. TaskSpec_is_dependent_on (spec u) oid) rest),
            dispatch_task_queue :=
              kept @ filter (\<lambda>u. \<not> TaskSpec_is_dependent_on (spec u) oid) rest\<rparr>"
proof (induction rest arbitrary: algorithm_state kept)
  case Nil
  then show ?case by simp
next
  case (Cons task rest)
  show ?case
  proof (cases "TaskSpec_is_dependent_on (spec task) oid")
    case True
    let ?a = "algorithm_state
                \<lparr>waiting_task_queue :=
                   waiting_task_queue algorithm_state @ [(next_node algorithm_state, task)],
                 next_node := Suc (next_node algorithm_state),
                 dispatch_task_queue := kept @ rest\<rparr>"
    have "dispatch_task_queue ?a = kept @ rest" by simp
    from Cons.IH [OF this] True show ?thesis by simp
  next
    case False
    from Cons.prems have "dispatch_task_queue algorithm_state = (kept @ [task]) @ rest" by simp
    from Cons.IH [OF this] False show ?thesis by simp
  qed
qed

lemma can_run_local:
  "dom (local_objects a) = dom (local_objects b) \<Longrightarrow> can_run a tspec = can_run b tspec"
proof -
  assume d: "dom (local_objects a) = dom (local_objects b)"
  have "(local_objects a oid \<noteq> None) = (local_objects b oid \<noteq> None)" for oid
    using d by (auto simp: dom_def set_eq_iff)
  then show ?thesis
    by (auto simp: can_run_def list_all_iff split: task_arg.splits)
qed

lemma move_dependent_tasks_skip:
  assumes "\<forall>it\<in>set its1. \<exists>task. map_of (waiting_task_queue algorithm_state) it = Some task
              \<and> \<not> can_run algorithm_state (spec task)"
  shows "move_dependent_tasks algorithm_state (its1 @ its2)
         = move_dependent_tasks algorithm_state its2"
  using assms by (induction its1) auto

lemma map_of_middle:
  "distinct (map fst (xs @ (k, v) # ys)) \<Longrightarrow> map_of (xs @ (k, v) # ys) k = Some v"
  by (rule map_of_is_SomeI) simp_all

lemma delete_middle:
  "distinct (map fst (xs @ (k, v) # ys)) \<Longrightarrow> AList.delete k (xs @ (k, v) # ys) = xs @ ys"
proof -
  assume d: "distinct (map fst (xs @ (k, v) # ys))"
  then have "k \<notin> fst ` set xs" "k \<notin> fst ` set ys" by auto
  then have "AList.delete k xs = xs" "AList.delete k ys = ys" by simp_all
  then show ?thesis by (simp add: AList.delete_eq)
qed

lemma move_dependent_tasks_all:
  assumes "waiting_task_queue algorithm_state = nodes @ moved"
      and "distinct (map fst (nodes @ moved))"
      and "\<forall>(it, task)\<in>set moved. can_run algorithm_state (spec task)"
  shows "move_dependent_tasks algorithm_state (map fst moved)
         = Inr (algorithm_state
                 \<lparr>dispatch_task_queue := dispatch_task_queue algorithm_state @ map snd moved,
                  waiting_task_queue := nodes\<rparr>)"
  using assms
proof (induction moved arbitrary: algorithm_state)
  case Nil
  then show ?case by simp
next
  case (Cons node moved)
  obtain it task where n: "node = (it, task)" by (cases node)
  let ?a = "algorithm_state
              \<lparr>dispatch_task_queue := dispatch_task_queue algorithm_state @ [task],
               waiting_task_queue := nodes @ moved\<rparr>"
  from Cons.prems(1,2) n have m: "map_of (waiting_task_queue algorithm_state) it = Some task"
    by (simp add: map_of_middle del: map_of_append)
  from Cons.prems(1,2) n have d: "AList.delete it (waiting_task_queue algorithm_state) = nodes @ moved"
    by (simp add: delete_middle)
  from Cons.prems(3) n have c: "can_run algorithm_state (spec task)" by simp
  have w: "waiting_task_queue ?a = nodes @ moved" by simp
  from Cons.prems(2) have dd: "distinct (map fst (nodes @ moved))" by simp
  have "can_run ?a tspec = can_run algorithm_state tspec" for tspec
    by (rule can_run_local) simp
  with Cons.prems(3) have cc: "\<forall>(it, task)\<in>set moved. can_run ?a (spec task)" by simp
  from Cons.IH [OF w dd cc] m d c n show ?case by simp
qed

lemma cursors_of_append: "cursors_of oid (xs @ ys) = cursors_of oid xs @ cursors_of oid ys"
  by (simp add: cursors_of_def)

lemma cursors_of_once:
  "\<forall>(it, task)\<in>set nodes. count_list (TaskSpec_args (spec task)) (ArgByRef oid) = 1
   \<Longrightarrow> cursors_of oid nodes = map fst nodes"
  by (induction nodes) (auto simp: cursors_of_def)

lemma cursors_of_member:
  "it \<in> set (cursors_of oid nodes) \<Longrightarrow> \<exists>task. (it, task) \<in> set nodes"
  by (auto simp: cursors_of_def)

lemma dispatch_tasks_no_worker:
  "available_workers algorithm_state = []
   \<Longrightarrow> snd (dispatch_tasks state algorithm_state) = algorithm_state"
  by (cases "dispatch_task_queue algorithm_state") (simp_all add: dispatch_tasks_def)

lemma handle_object_removed_effect:
  assumes "local_objects algorithm_state oid \<noteq> None"
  obtains state1 where
    "only_calls_differ state1 state"
    "handle_object_removed state algorithm_state oid
       = Inr (state1, algorithm_state
           \<lparr>local_objects := (local_objects algorithm_state)(oid := None),
            waiting_task_queue := waiting_task_queue algorithm_state
              @ fresh_nodes (next_node algorithm_state)
                  (filter (\<lambda>u. TaskSpec_is_dependent_on (spec u) oid)
                     (dispatch_task_queue algorithm_state)),
            next_node := next_node algorithm_state
              + length (filter (\<lambda>u. TaskSpec_is_dependent_on (spec u) oid)
                          (dispatch_task_queue algorithm_state)),
            dispatch_task_queue :=
              filter (\<lambda>u. \<not> TaskSpec_is_dependent_on (spec u) oid)
                (dispatch_task_queue algorithm_state),
            remote_objects := register_cursors (remote_objects algorithm_state) oid
              (cursors_of oid (waiting_task_queue algorithm_state
                 @ fresh_nodes (next_node algorithm_state)
                     (filter (\<lambda>u. TaskSpec_is_dependent_on (spec u) oid)
                        (dispatch_task_queue algorithm_state))))\<rparr>)"
proof -
  let ?a1 = "algorithm_state\<lparr>local_objects := (local_objects algorithm_state)(oid := None)\<rparr>"
  let ?a2 = "requeue_dependent_loop ?a1 oid [] (dispatch_task_queue ?a1)"
  have q: "dispatch_task_queue ?a1 = [] @ dispatch_task_queue ?a1" by simp
  note a2 = requeue_dependent_loop_effect [OF q, of oid]
  obtain state1 algorithm_state1 where
    t: "track_waiting_loop state ?a2 oid (waiting_task_queue ?a2) = (state1, algorithm_state1)"
    by (cases "track_waiting_loop state ?a2 oid (waiting_task_queue ?a2)")
  from track_waiting_loop_remote [OF t] have
    c: "only_calls_differ state1 state"
    and e: "algorithm_state1 = ?a2
          \<lparr>remote_objects := register_cursors (remote_objects ?a2) oid
             (cursors_of oid (waiting_task_queue ?a2))\<rparr>"
    by simp_all
  from assms t have "handle_object_removed state algorithm_state oid = Inr (state1, algorithm_state1)"
    by (simp add: handle_object_removed_def CHECK_def Let_def)
  with c show ?thesis unfolding e a2 by (intro that [of state1]) simp_all
qed

section \<open>Dispatch to an actor: the entry checks\<close>

text \<open>C1 as stated, for every actor with a \<^verbatim>\<open>LocalActorInfo\<close>, fails: actor 3 has a
  \<^verbatim>\<open>LocalActorInfo\<close> whose queue starts with the task of counter 0, its \<open>task_counter\<close> is 0 and
  its worker is available, so that the call should return true.  Without an entry for
  actor 3 in \<open>actor_mapping\<close> the call aborts on the assertion of that entry, and it aborts on
  the next assertion when the entry names another local scheduler; it returns neither false
  nor true.  So it does for the nil actor id, on the first assertion.\<close>

theorem dispatch_actor_task_entry_checks_counterexample:
  "local_actor_infos example_actor_algorithm_state (ID 3) = Some example_actor_info
   \<and> TaskSpec_actor_counter (spec (hd (task_queue example_actor_info)))
       = task_counter example_actor_info
   \<and> worker_available example_actor_info
   \<and> actor_mapping example_state (ID 3) = None
   \<and> dispatch_actor_task example_state example_actor_algorithm_state (ID 3)
       = Inl (Check_failure ''state->actor_mapping.count(actor_id) == 1'')
   \<and> dispatch_actor_task
         (example_state\<lparr>actor_mapping := [ID 3 \<mapsto> \<lparr>local_scheduler_id = ID 8\<rparr>]\<rparr>)
         example_actor_algorithm_state (ID 3)
       = Inl (Check_failure
           ''DBClientID_equal(state->actor_mapping[actor_id].local_scheduler_id, get_db_client_id(state->db))'')
   \<and> dispatch_actor_task
         (example_state\<lparr>actor_mapping := [NIL_ACTOR_ID \<mapsto> \<lparr>local_scheduler_id = ID 7\<rparr>]\<rparr>)
         (SchedulingAlgorithmState_init\<lparr>local_actor_infos := [NIL_ACTOR_ID \<mapsto> example_actor_info]\<rparr>)
         NIL_ACTOR_ID
       = Inl (Check_failure ''!ActorID_equal(actor_id, NIL_ACTOR_ID)'')"
  by (simp add: dispatch_actor_task_def CHECK_def example_state_def
        example_actor_algorithm_state_def example_actor_info_def SchedulingAlgorithmState_init_def
        TaskQueueEntry_init_def example_actor_task_def NIL_ACTOR_ID_def)

section \<open>Dispatch of regular tasks: the whole visit\<close>

lemma task_unfit_iff:
  "list_ex (\<lambda>i. dynamic_resources state i < TaskSpec_get_required_resource tspec i)
     [0..<ResourceIndex_MAX]
   \<longleftrightarrow> \<not> task_satisfied state tspec"
  by (auto simp: task_satisfied_def list_all_iff list_ex_iff)

lemma resources_exhausted_iff:
  assumes "(\<exists>k<ResourceIndex_MAX. 0 < dynamic_resources state k)
           \<or> (\<forall>k<ResourceIndex_MAX. 0 \<le> dynamic_resources state k)"
  shows "list_all (\<lambda>k. dynamic_resources state k = 0) [0..<ResourceIndex_MAX]
         \<longleftrightarrow> \<not> resources_available state"
proof
  assume "list_all (\<lambda>k. dynamic_resources state k = 0) [0..<ResourceIndex_MAX]"
  then show "\<not> resources_available state"
    by (auto simp: resources_available_iff list_all_iff)
next
  assume n: "\<not> resources_available state"
  then have none: "\<forall>k<ResourceIndex_MAX. \<not> 0 < dynamic_resources state k"
    by (simp add: resources_available_iff)
  with assms have "\<forall>k<ResourceIndex_MAX. 0 \<le> dynamic_resources state k" by blast
  with none have "\<forall>k<ResourceIndex_MAX. dynamic_resources state k = 0"
    by (metis order.not_eq_order_implies_strict)
  then show "list_all (\<lambda>k. dynamic_resources state k = 0) [0..<ResourceIndex_MAX]"
    by (simp add: list_all_iff)
qed

lemma dispatch_tasks_loop_refines:
  assumes "dispatch_task_queue algorithm_state = skipped @ rest"
      and "(\<exists>k<ResourceIndex_MAX. 0 < dynamic_resources state k)
           \<or> (\<forall>k<ResourceIndex_MAX. 0 \<le> dynamic_resources state k)"
  shows "dispatch_tasks_loop state algorithm_state skipped rest
         = (case spec_dispatch_tasks state (available_workers algorithm_state)
                   (executing_workers algorithm_state) rest of
              (state1, available1, executing1, kept) \<Rightarrow>
                (state1, algorithm_state\<lparr>dispatch_task_queue := skipped @ kept,
                                          available_workers := available1,
                                          executing_workers := executing1\<rparr>))"
  using assms
proof (induction rest arbitrary: state algorithm_state skipped)
  case Nil
  then show ?case by simp
next
  case (Cons task rest)
  note ex = resources_exhausted_iff [OF Cons.prems(2)]
  show ?case
  proof (cases "available_workers algorithm_state = []")
    case True
    with Cons.prems(1) show ?thesis by simp
  next
    case workers: False
    show ?thesis
    proof (cases "resources_available state")
      case False
      with workers Cons.prems(1) ex show ?thesis by simp
    next
      case res: True
      show ?thesis
      proof (cases "task_satisfied state (spec task)")
        case False
        from Cons.prems(1) have q: "dispatch_task_queue algorithm_state = (skipped @ [task]) @ rest"
          by simp
        from Cons.IH [OF q Cons.prems(2)] False workers res ex show ?thesis
          by (simp add: task_unfit_iff split: prod.splits)
      next
        case True
        let ?w = "last (available_workers algorithm_state)"
        let ?st = "TaskQueueEntry_free (record_call (Print_resource_info (spec task))
               (assign_task_to_worker state (spec task) (task_spec_size task) (Some ?w))) task"
        let ?al = "algorithm_state
                \<lparr>available_workers := butlast (available_workers algorithm_state),
                 executing_workers := executing_workers algorithm_state @ [?w],
                 dispatch_task_queue := skipped @ rest\<rparr>"
        have q: "dispatch_task_queue ?al = skipped @ rest" by simp
        from True have "\<forall>k<ResourceIndex_MAX. 0 \<le> dynamic_resources ?st k"
          by (simp add: task_satisfied_iff assign_task_to_worker_def)
        then have sane: "(\<exists>k<ResourceIndex_MAX. 0 < dynamic_resources ?st k)
           \<or> (\<forall>k<ResourceIndex_MAX. 0 \<le> dynamic_resources ?st k)" ..
        have step: "dispatch_tasks_loop state algorithm_state skipped (task # rest)
            = dispatch_tasks_loop ?st ?al skipped rest"
          using True workers res by (simp add: Let_def)
        have spec_step: "spec_dispatch_tasks state (available_workers algorithm_state)
              (executing_workers algorithm_state) (task # rest)
            = spec_dispatch_tasks ?st (available_workers ?al) (executing_workers ?al) rest"
          using True workers res ex by (simp add: task_unfit_iff)
        show ?thesis
          unfolding step spec_step Cons.IH [OF q sane]
          by (simp split: prod.splits)
      qed
    qed
  qed
qed

text \<open>
  C2: with an available worker and some positive dynamic resource, \<^verbatim>\<open>dispatch_tasks\<close>
  does to the whole dispatch queue what the specification says, task after task: the
  resulting scheduler state, available workers, executing workers and dispatch queue are those
  of \<open>spec_dispatch_tasks\<close>, and nothing else of the algorithm state changes.  In particular,
  let the queue start with tasks that each exceed the dynamic resources in some component,
  followed by a task that fits.  Then the unfitting tasks stay where they are, at the head
  and in order; the fitting task is handed to the last available worker, its entry freed and
  erased from the queue; that worker is popped from the available workers and appended to
  the executing workers; and the visit goes on over the rest of the queue as specified, of
  which a subsequence remains, in order.
\<close>

theorem dispatch_tasks_skips_unfit:
  assumes "available_workers algorithm_state \<noteq> []"
      and "\<exists>k<ResourceIndex_MAX. 0 < dynamic_resources state k"
  shows "(\<exists>state1 available1 executing1 kept.
            spec_dispatch_tasks state (available_workers algorithm_state)
              (executing_workers algorithm_state) (dispatch_task_queue algorithm_state)
              = (state1, available1, executing1, kept)
          \<and> dispatch_tasks state algorithm_state
              = (state1, algorithm_state\<lparr>dispatch_task_queue := kept,
                                          available_workers := available1,
                                          executing_workers := executing1\<rparr>))
       \<and> (\<forall>unfit task rest.
            dispatch_task_queue algorithm_state = unfit @ task # rest
            \<and> (\<forall>u\<in>set unfit. \<exists>i<ResourceIndex_MAX.
                  dynamic_resources state i < TaskSpec_get_required_resource (spec u) i)
            \<and> (\<forall>i<ResourceIndex_MAX.
                  TaskSpec_get_required_resource (spec task) i \<le> dynamic_resources state i)
            \<longrightarrow> (\<exists>state1 available1 executing1 kept.
                   spec_dispatch_tasks
                     (TaskQueueEntry_free
                        (record_call (Print_resource_info (spec task))
                           (assign_task_to_worker state (spec task) (task_spec_size task)
                              (Some (last (available_workers algorithm_state)))))
                        task)
                     (butlast (available_workers algorithm_state))
                     (executing_workers algorithm_state @ [last (available_workers algorithm_state)])
                     rest
                     = (state1, available1, executing1, kept)
                 \<and> dispatch_tasks state algorithm_state
                     = (state1, algorithm_state\<lparr>dispatch_task_queue := unfit @ kept,
                                                 available_workers := available1,
                                                 executing_workers := executing1\<rparr>)
                 \<and> subseq kept rest
                 \<and> prefix (calls state
                         @ [Assign_task_to_worker (spec task) (task_spec_size task)
                              (Some (last (available_workers algorithm_state))),
                            Print_resource_info (spec task),
                            Free_TaskSpec (spec task)])
                      (calls state1)
                 \<and> prefix (executing_workers algorithm_state
                            @ [last (available_workers algorithm_state)])
                      executing1
                 \<and> prefix available1 (butlast (available_workers algorithm_state))))"
proof (intro conjI allI impI)
  from assms(2) have sane: "(\<exists>k<ResourceIndex_MAX. 0 < dynamic_resources state k)
           \<or> (\<forall>k<ResourceIndex_MAX. 0 \<le> dynamic_resources state k)" ..
  have q: "dispatch_task_queue algorithm_state = [] @ dispatch_task_queue algorithm_state" by simp
  obtain state1 available1 executing1 kept where
    s: "spec_dispatch_tasks state (available_workers algorithm_state)
              (executing_workers algorithm_state) (dispatch_task_queue algorithm_state)
              = (state1, available1, executing1, kept)"
    by (cases "spec_dispatch_tasks state (available_workers algorithm_state)
              (executing_workers algorithm_state) (dispatch_task_queue algorithm_state)")
  from dispatch_tasks_loop_refines [OF q sane] s
  have "dispatch_tasks state algorithm_state
              = (state1, algorithm_state\<lparr>dispatch_task_queue := kept,
                                          available_workers := available1,
                                          executing_workers := executing1\<rparr>)"
    by (simp add: dispatch_tasks_def)
  with s show "\<exists>state1 available1 executing1 kept.
            spec_dispatch_tasks state (available_workers algorithm_state)
              (executing_workers algorithm_state) (dispatch_task_queue algorithm_state)
              = (state1, available1, executing1, kept)
          \<and> dispatch_tasks state algorithm_state
              = (state1, algorithm_state\<lparr>dispatch_task_queue := kept,
                                          available_workers := available1,
                                          executing_workers := executing1\<rparr>)"
    by blast
next
  fix unfit task rest
  let ?w = "last (available_workers algorithm_state)"
  let ?st = "TaskQueueEntry_free (record_call (Print_resource_info (spec task))
         (assign_task_to_worker state (spec task) (task_spec_size task) (Some ?w))) task"
  let ?al = "algorithm_state
          \<lparr>available_workers := butlast (available_workers algorithm_state),
           executing_workers := executing_workers algorithm_state @ [?w],
           dispatch_task_queue := unfit @ rest\<rparr>"
  assume h: "dispatch_task_queue algorithm_state = unfit @ task # rest
            \<and> (\<forall>u\<in>set unfit. \<exists>i<ResourceIndex_MAX.
                  dynamic_resources state i < TaskSpec_get_required_resource (spec u) i)
            \<and> (\<forall>i<ResourceIndex_MAX.
                  TaskSpec_get_required_resource (spec task) i \<le> dynamic_resources state i)"
  then have queue: "dispatch_task_queue algorithm_state = unfit @ task # rest" by simp
  from assms(2) have res: "resources_available state" by (simp add: resources_available_iff)
  from h have unfit: "\<forall>u\<in>set unfit. \<not> task_satisfied state (spec u)"
    by (auto simp: task_satisfied_iff not_le)
  from h have fit: "task_satisfied state (spec task)" by (simp add: task_satisfied_iff)
  have "dispatch_tasks state algorithm_state
          = dispatch_tasks_loop state algorithm_state ([] @ unfit) (task # rest)"
    unfolding dispatch_tasks_def queue
    by (rule dispatch_tasks_loop_skip [OF assms(1) res unfit])
  also have "\<dots> = dispatch_tasks_loop ?st ?al unfit rest"
    using assms(1) res fit by (simp add: Let_def)
  finally have step: "dispatch_tasks state algorithm_state = dispatch_tasks_loop ?st ?al unfit rest" .
  have q: "dispatch_task_queue ?al = unfit @ rest" by simp
  from fit have "\<forall>k<ResourceIndex_MAX. 0 \<le> dynamic_resources ?st k"
    by (simp add: task_satisfied_iff assign_task_to_worker_def)
  then have sane: "(\<exists>k<ResourceIndex_MAX. 0 < dynamic_resources ?st k)
           \<or> (\<forall>k<ResourceIndex_MAX. 0 \<le> dynamic_resources ?st k)" ..
  obtain state1 available1 executing1 kept where
    s: "spec_dispatch_tasks ?st (butlast (available_workers algorithm_state))
          (executing_workers algorithm_state @ [?w]) rest
          = (state1, available1, executing1, kept)"
    by (cases "spec_dispatch_tasks ?st (butlast (available_workers algorithm_state))
          (executing_workers algorithm_state @ [?w]) rest")
  from dispatch_tasks_loop_refines [OF q sane] s
  have r: "dispatch_tasks_loop ?st ?al unfit rest
      = (state1, algorithm_state\<lparr>dispatch_task_queue := unfit @ kept,
                                  available_workers := available1,
                                  executing_workers := executing1\<rparr>)"
    by simp
  from dispatch_tasks_loop_result [OF r q] obtain kept' where
    k: "unfit @ kept = unfit @ kept'" "subseq kept' rest"
       "prefix (calls ?st) (calls state1)"
       "prefix (executing_workers ?al) executing1"
       "prefix available1 (available_workers ?al)"
    by auto
  from k(1,2) have k2: "subseq kept rest" by simp
  have c: "calls ?st = calls state
                 @ [Assign_task_to_worker (spec task) (task_spec_size task) (Some ?w),
                    Print_resource_info (spec task), Free_TaskSpec (spec task)]"
    by simp
  from k(3) have k3: "prefix (calls state
                 @ [Assign_task_to_worker (spec task) (task_spec_size task) (Some ?w),
                    Print_resource_info (spec task), Free_TaskSpec (spec task)]) (calls state1)"
    unfolding c .
  from k(4) have k4: "prefix (executing_workers algorithm_state @ [?w]) executing1" by simp
  from k(5) have k5: "prefix available1 (butlast (available_workers algorithm_state))" by simp
  from s step r k2 k3 k4 k5
  show "\<exists>state1 available1 executing1 kept.
                   spec_dispatch_tasks ?st
                     (butlast (available_workers algorithm_state))
                     (executing_workers algorithm_state @ [?w])
                     rest
                     = (state1, available1, executing1, kept)
                 \<and> dispatch_tasks state algorithm_state
                     = (state1, algorithm_state\<lparr>dispatch_task_queue := unfit @ kept,
                                                 available_workers := available1,
                                                 executing_workers := executing1\<rparr>)
                 \<and> subseq kept rest
                 \<and> prefix (calls state
                         @ [Assign_task_to_worker (spec task) (task_spec_size task)
                              (Some ?w),
                            Print_resource_info (spec task),
                            Free_TaskSpec (spec task)])
                      (calls state1)
                 \<and> prefix (executing_workers algorithm_state @ [?w]) executing1
                 \<and> prefix available1 (butlast (available_workers algorithm_state))"
    by (intro exI [of _ state1] exI [of _ available1] exI [of _ executing1] exI [of _ kept]) simp
qed

text \<open>C2, at a concrete input: four CPUs available, the workers 4, 5 and 6 available, and a
  queue of four tasks that need 9, 1, 9 and 1 CPUs.  Both tasks that need 9 CPUs stay, in
  order; the second task goes to worker 6 and the fourth, behind the second unfitting task, to
  worker 5.\<close>

theorem dispatch_tasks_skips_unfit_witness:
  "\<exists>state1.
      dispatch_tasks example_fragmented_state example_fragmented_algorithm_state
        = (state1, example_fragmented_algorithm_state
             \<lparr>dispatch_task_queue := [TaskQueueEntry_init (example_task 1 9 []) 8,
                                      TaskQueueEntry_init (example_task 3 9 []) 8],
              available_workers := [4],
              executing_workers := [6, 5]\<rparr>)
    \<and> calls state1 = [Assign_task_to_worker (example_task 2 1 []) 8 (Some 6),
                       Print_resource_info (example_task 2 1 []),
                       Free_TaskSpec (example_task 2 1 []),
                       Assign_task_to_worker (example_task 4 1 []) 8 (Some 5),
                       Print_resource_info (example_task 4 1 []),
                       Free_TaskSpec (example_task 4 1 [])]
    \<and> dynamic_resources state1 0 = 2"
proof -
  let ?s = example_fragmented_state
  let ?a = example_fragmented_algorithm_state
  let ?t1 = "TaskQueueEntry_init (example_task 1 9 []) 8"
  let ?t2 = "TaskQueueEntry_init (example_task 2 1 []) 8"
  let ?t3 = "TaskQueueEntry_init (example_task 3 9 []) 8"
  let ?t4 = "TaskQueueEntry_init (example_task 4 1 []) 8"
  note defs = example_fragmented_algorithm_state_def example_fragmented_state_def
    example_state_def example_task_def SchedulingAlgorithmState_init_def TaskQueueEntry_init_def
    resource_indices assign_task_to_worker_def record_call_def TaskQueueEntry_free_def
  have m: "0 < ResourceIndex_MAX" "Suc 0 < ResourceIndex_MAX"
    by (simp_all add: ResourceIndex_MAX_def)
  have w: "available_workers ?a \<noteq> []" by (simp add: defs)
  have "0 < ResourceIndex_MAX \<and> 0 < dynamic_resources ?s 0"
    by (simp add: ResourceIndex_MAX_def defs)
  then have r: "\<exists>k<ResourceIndex_MAX. 0 < dynamic_resources ?s k" ..
  note t = dispatch_tasks_skips_unfit [OF w r]
  from t obtain state1 available1 executing1 kept where
    s: "spec_dispatch_tasks ?s (available_workers ?a) (executing_workers ?a)
          (dispatch_task_queue ?a) = (state1, available1, executing1, kept)"
    and d: "dispatch_tasks ?s ?a
          = (state1, ?a\<lparr>dispatch_task_queue := kept, available_workers := available1,
                        executing_workers := executing1\<rparr>)"
    by blast
  have e: "\<exists>st. spec_dispatch_tasks ?s (available_workers ?a) (executing_workers ?a)
          (dispatch_task_queue ?a) = (st, [4], [6, 5], [?t1, ?t3])
        \<and> calls st = [Assign_task_to_worker (example_task 2 1 []) 8 (Some 6),
                       Print_resource_info (example_task 2 1 []),
                       Free_TaskSpec (example_task 2 1 []),
                       Assign_task_to_worker (example_task 4 1 []) 8 (Some 5),
                       Print_resource_info (example_task 4 1 []),
                       Free_TaskSpec (example_task 4 1 [])]
        \<and> dynamic_resources st 0 = 2"
    by (simp add: defs m)
  have q: "dispatch_task_queue ?a = [?t1] @ ?t2 # [?t3, ?t4]" by (simp add: defs)
  have u: "\<forall>u\<in>set [?t1]. \<exists>i<ResourceIndex_MAX.
      dynamic_resources ?s i < TaskSpec_get_required_resource (spec u) i"
    by (simp add: ResourceIndex_MAX_def defs)
  have f: "\<forall>i<ResourceIndex_MAX.
      TaskSpec_get_required_resource (spec ?t2) i \<le> dynamic_resources ?s i"
    by (simp add: ResourceIndex_MAX_def defs)
  from t q u f obtain state2 available2 executing2 kept2 where
    d2: "dispatch_tasks ?s ?a
          = (state2, ?a\<lparr>dispatch_task_queue := [?t1] @ kept2, available_workers := available2,
                        executing_workers := executing2\<rparr>)"
    and k2: "subseq kept2 [?t3, ?t4]"
    by blast
  from e s d show ?thesis by auto
qed

section \<open>An object removed, then available again: the round trip\<close>

lemma object_removed_then_available_steps:
  assumes present: "local_objects algorithm_state oid \<noteq> None"
      and absent: "map_of (remote_objects algorithm_state) oid = None"
      and runnable: "\<forall>t\<in>set (dispatch_task_queue algorithm_state). can_run algorithm_state (spec t)"
      and missing: "\<forall>(it, t)\<in>set (waiting_task_queue algorithm_state).
                      \<not> can_run algorithm_state (spec t)"
      and once: "\<forall>t\<in>set (dispatch_task_queue algorithm_state).
                   count_list (TaskSpec_args (spec t)) (ArgByRef oid) \<le> 1"
      and ids: "distinct (map fst (waiting_task_queue algorithm_state))"
      and old: "\<forall>(it, t)\<in>set (waiting_task_queue algorithm_state). it < next_node algorithm_state"
  shows "\<exists>state1 algorithm_state1.
           handle_object_removed state algorithm_state oid = Inr (state1, algorithm_state1)
         \<and> only_calls_differ state1 state
         \<and> handle_object_available state1 algorithm_state1 oid
             = Inr (if registered_cursors oid algorithm_state = []
                    then (state1, removed_and_returned algorithm_state oid
                                    (registered_cursors oid algorithm_state))
                    else dispatch_tasks state1
                           (removed_and_returned algorithm_state oid
                              (registered_cursors oid algorithm_state)))"
proof -
  define W where "W = waiting_task_queue algorithm_state"
  define D where "D = filter (\<lambda>u. TaskSpec_is_dependent_on (spec u) oid)
                        (dispatch_task_queue algorithm_state)"
  define K where "K = filter (\<lambda>u. \<not> TaskSpec_is_dependent_on (spec u) oid)
                        (dispatch_task_queue algorithm_state)"
  define N where "N = fresh_nodes (next_node algorithm_state) D"
  define its where "its = cursors_of oid (W @ N)"
  have reg: "registered_cursors oid algorithm_state = its"
    unfolding registered_cursors_def its_def N_def D_def W_def ..
  define remote1 where "remote1 = register_cursors (remote_objects algorithm_state) oid its"
  define a1 where "a1 = algorithm_state
           \<lparr>local_objects := (local_objects algorithm_state)(oid := None),
            waiting_task_queue := W @ N,
            next_node := next_node algorithm_state + length D,
            dispatch_task_queue := K,
            remote_objects := remote1\<rparr>"
  from present obtain state1 where
    c: "only_calls_differ state1 state"
    and r: "handle_object_removed state algorithm_state oid = Inr (state1, a1)"
    unfolding a1_def remote1_def its_def N_def D_def K_def W_def
    by (rule handle_object_removed_effect)
  have remote1: "remote1 = (if its = [] then remote_objects algorithm_state
            else remote_objects algorithm_state
                   @ [(oid, \<lparr>object_id = oid, dependent_tasks = its\<rparr>)])"
    unfolding remote1_def by (rule register_cursors_fresh [OF absent])
  have inD: "task \<in> set D" if "(it, task) \<in> set N" for it task
    using that unfolding N_def by (rule fresh_nodes_member)
  have D_dispatch: "t \<in> set (dispatch_task_queue algorithm_state)
      \<and> TaskSpec_is_dependent_on (spec t) oid" if "t \<in> set D" for t
    using that by (simp add: D_def)
  have count1: "count_list (TaskSpec_args (spec t)) (ArgByRef oid) = 1" if "t \<in> set D" for t
  proof -
    from D_dispatch [OF that] have "ArgByRef oid \<in> set (TaskSpec_args (spec t))"
      by (simp add: TaskSpec_is_dependent_on_def)
    then have "count_list (TaskSpec_args (spec t)) (ArgByRef oid) \<noteq> 0"
      by (simp add: count_list_0_iff)
    moreover from D_dispatch [OF that] once
    have "count_list (TaskSpec_args (spec t)) (ArgByRef oid) \<le> 1" by simp
    ultimately show ?thesis by simp
  qed
  have "\<forall>(it, task)\<in>set N. count_list (TaskSpec_args (spec task)) (ArgByRef oid) = 1"
    using inD count1 by blast
  then have cN: "cursors_of oid N = map fst N" by (rule cursors_of_once)
  have its: "its = cursors_of oid W @ map fst N"
    unfolding its_def by (simp only: cursors_of_append cN)
  have dist: "distinct (map fst (W @ N))"
  proof -
    have "it1 \<noteq> it2" if "(it1, t1) \<in> set W" "(it2, t2) \<in> set N" for it1 t1 it2 t2
    proof -
      from that(1) old have "it1 < next_node algorithm_state" by (auto simp: W_def)
      moreover from fresh_nodes_ge [OF that(2) [unfolded N_def]]
      have "next_node algorithm_state \<le> it2" .
      ultimately show ?thesis by simp
    qed
    then have "fst ` set W \<inter> fst ` set N = {}" by fastforce
    moreover have "distinct (map fst N)" unfolding N_def by (rule fresh_nodes_distinct)
    moreover have "distinct (map fst W)" using ids by (simp add: W_def)
    ultimately show ?thesis by simp
  qed
  show ?thesis
  proof (cases "its = []")
    case True
    with its have "map fst N = []" and cw: "cursors_of oid W = []" by simp_all
    then have "N = []" by simp
    then have "length D = 0" unfolding N_def by (metis fresh_nodes_length list.size(3))
    then have D: "D = []" by simp
    then have K: "K = dispatch_task_queue algorithm_state"
      unfolding D_def K_def by (simp add: filter_empty_conv filter_id_conv)
    from True remote1 have rm: "remote1 = remote_objects algorithm_state" by simp
    have a1: "a1 = algorithm_state\<lparr>local_objects := (local_objects algorithm_state)(oid := None)\<rparr>"
      unfolding a1_def rm K D \<open>N = []\<close> W_def by simp
    have rr: "removed_and_returned algorithm_state oid []
        = algorithm_state\<lparr>local_objects := (local_objects algorithm_state)
             (oid \<mapsto> \<lparr>object_id = oid, dependent_tasks = []\<rparr>)\<rparr>"
      using D K unfolding removed_and_returned_def D_def K_def by simp
    have "handle_object_available state1 a1 oid
        = Inr (state1, removed_and_returned algorithm_state oid [])"
      unfolding a1 rr using absent
      by (simp add: handle_object_available_def CHECK_def)
    with r c True show ?thesis
      unfolding reg by (intro exI [of _ state1] exI [of _ a1]) simp
  next
    case False
    define entry where "entry = \<lparr>object_id = oid, dependent_tasks = its\<rparr>"
    from False remote1 have rm: "remote1 = remote_objects algorithm_state @ [(oid, entry)]"
      by (simp add: entry_def)
    have found: "map_of remote1 oid = Some entry"
      unfolding rm by (rule map_of_last [OF absent])
    have deleted: "AList.delete oid remote1 = remote_objects algorithm_state"
      unfolding rm by (rule delete_last [OF absent])
    define a2 where "a2 = algorithm_state
           \<lparr>local_objects := (local_objects algorithm_state)(oid \<mapsto> entry),
            waiting_task_queue := W @ N,
            next_node := next_node algorithm_state + length D,
            dispatch_task_queue := K\<rparr>"
    have a12: "a1\<lparr>remote_objects := remote_objects algorithm_state,
                 local_objects := (local_objects a1)(oid \<mapsto> entry)\<rparr> = a2"
      unfolding a1_def a2_def by simp
    have dom2: "dom (local_objects a2) = dom (local_objects algorithm_state)"
      using present unfolding a2_def by auto
    have run2: "can_run a2 tspec = can_run algorithm_state tspec" for tspec
      by (rule can_run_local [OF dom2])
    have w2: "waiting_task_queue a2 = W @ N" unfolding a2_def by simp
    have skip: "\<forall>it\<in>set (cursors_of oid W).
        \<exists>task. map_of (waiting_task_queue a2) it = Some task \<and> \<not> can_run a2 (spec task)"
    proof
      fix it
      assume "it \<in> set (cursors_of oid W)"
      from cursors_of_member [OF this] obtain task where m: "(it, task) \<in> set W" ..
      then have "(it, task) \<in> set (W @ N)" by simp
      with dist have "map_of (W @ N) it = Some task" by (rule map_of_is_SomeI)
      moreover from m missing have "\<not> can_run algorithm_state (spec task)"
        by (auto simp: W_def)
      ultimately show "\<exists>task. map_of (waiting_task_queue a2) it = Some task
          \<and> \<not> can_run a2 (spec task)"
        unfolding run2 w2 by simp
    qed
    have all: "\<forall>(it, task)\<in>set N. can_run a2 (spec task)"
      unfolding run2 using inD D_dispatch runnable by blast
    have "move_dependent_tasks a2 its = move_dependent_tasks a2 (map fst N)"
      unfolding its by (rule move_dependent_tasks_skip [OF skip])
    also have "\<dots> = Inr (a2\<lparr>dispatch_task_queue := dispatch_task_queue a2 @ map snd N,
                  waiting_task_queue := W\<rparr>)"
      by (rule move_dependent_tasks_all [OF w2 dist all])
    also have "a2\<lparr>dispatch_task_queue := dispatch_task_queue a2 @ map snd N,
                  waiting_task_queue := W\<rparr> = removed_and_returned algorithm_state oid its"
      unfolding a2_def removed_and_returned_def entry_def N_def
      by (simp add: D_def K_def W_def)
    finally have mv: "move_dependent_tasks a2 its
        = Inr (removed_and_returned algorithm_state oid its)" .
    have chk: "local_objects a1 oid = None" unfolding a1_def by simp
    have rem: "remote_objects a1 = remote1" unfolding a1_def by simp
    have deps: "dependent_tasks entry = its" unfolding entry_def by simp
    have "handle_object_available state1 a1 oid
        = Inr (dispatch_tasks state1 (removed_and_returned algorithm_state oid its))"
      unfolding handle_object_available_def rem found deleted
      using False by (simp add: CHECK_def chk a12 deps mv and_then_def)
    with r c False show ?thesis
      unfolding reg by (intro exI [of _ state1] exI [of _ a1]) simp
  qed
qed

lemma fresh_nodes_append:
  "fresh_nodes n (xs @ ys) = fresh_nodes n xs @ fresh_nodes (n + length xs) ys"
  by (induction xs arbitrary: n) simp_all

lemma move_dependent_tasks_prefix:
  assumes "waiting_task_queue algorithm_state = nodes @ moved @ later"
      and "distinct (map fst (nodes @ moved @ later))"
      and "\<forall>(it, task)\<in>set moved. can_run algorithm_state (spec task)"
  shows "move_dependent_tasks algorithm_state (map fst moved @ its)
         = move_dependent_tasks
             (algorithm_state
                \<lparr>dispatch_task_queue := dispatch_task_queue algorithm_state @ map snd moved,
                 waiting_task_queue := nodes @ later\<rparr>)
             its"
  using assms
proof (induction moved arbitrary: algorithm_state)
  case Nil
  show ?case by (simp add: Nil.prems(1) [simplified, symmetric])
next
  case (Cons node moved)
  obtain it task where n: "node = (it, task)" by (cases node)
  let ?a = "algorithm_state
              \<lparr>dispatch_task_queue := dispatch_task_queue algorithm_state @ [task],
               waiting_task_queue := nodes @ moved @ later\<rparr>"
  from Cons.prems(2) n have dm: "distinct (map fst (nodes @ (it, task) # (moved @ later)))" by simp
  from Cons.prems(1) n have wq: "waiting_task_queue algorithm_state
      = nodes @ (it, task) # (moved @ later)" by simp
  have m: "map_of (waiting_task_queue algorithm_state) it = Some task"
    unfolding wq by (rule map_of_middle [OF dm])
  have d: "AList.delete it (waiting_task_queue algorithm_state) = nodes @ moved @ later"
    unfolding wq by (rule delete_middle [OF dm])
  from Cons.prems(3) n have c: "can_run algorithm_state (spec task)" by simp
  have w: "waiting_task_queue ?a = nodes @ moved @ later" by simp
  from Cons.prems(2) have dd: "distinct (map fst (nodes @ moved @ later))" by simp
  have "can_run ?a tspec = can_run algorithm_state tspec" for tspec
    by (rule can_run_local) simp
  with Cons.prems(3) have cc: "\<forall>(it, task)\<in>set moved. can_run ?a (spec task)" by simp
  have "move_dependent_tasks algorithm_state (map fst (node # moved) @ its)
      = move_dependent_tasks ?a (map fst moved @ its)"
    using m d c n by simp
  also have "\<dots> = move_dependent_tasks
             (?a\<lparr>dispatch_task_queue := dispatch_task_queue ?a @ map snd moved,
                 waiting_task_queue := nodes @ later\<rparr>) its"
    by (rule Cons.IH [OF w dd cc])
  finally show ?case using n by simp
qed

lemma cursors_of_empty_iff:
  "cursors_of oid nodes = []
   \<longleftrightarrow> (\<forall>(it, task)\<in>set nodes. \<not> TaskSpec_is_dependent_on (spec task) oid)"
  by (induction nodes)
     (auto simp: cursors_of_def TaskSpec_is_dependent_on_def count_list_0_iff)

lemma registered_cursors_empty_iff:
  "registered_cursors oid algorithm_state = [] \<longleftrightarrow> \<not> names_object oid algorithm_state"
proof -
  let ?D = "filter (\<lambda>u. TaskSpec_is_dependent_on (spec u) oid)
              (dispatch_task_queue algorithm_state)"
  let ?N = "fresh_nodes (next_node algorithm_state) ?D"
  have "(\<forall>(it, task)\<in>set ?N. \<not> TaskSpec_is_dependent_on (spec task) oid) \<longleftrightarrow> ?D = []"
  proof
    assume a: "\<forall>(it, task)\<in>set ?N. \<not> TaskSpec_is_dependent_on (spec task) oid"
    show "?D = []"
    proof (rule ccontr)
      assume "?D \<noteq> []"
      then have "?N \<noteq> []" by (metis fresh_nodes_length length_0_conv)
      then obtain it task where m: "(it, task) \<in> set ?N" by (cases ?N) auto
      from fresh_nodes_member [OF m] have "TaskSpec_is_dependent_on (spec task) oid" by simp
      with a m show False by blast
    qed
  next
    assume "?D = []"
    then show "\<forall>(it, task)\<in>set ?N. \<not> TaskSpec_is_dependent_on (spec task) oid" by simp
  qed
  then show ?thesis
    unfolding registered_cursors_def names_object_def cursors_of_append
    by (auto simp: cursors_of_empty_iff list_ex_iff filter_empty_conv)
qed

lemma register_cursors_None:
  "map_of (register_cursors remote oid cs) oid = None \<longleftrightarrow> map_of remote oid = None \<and> cs = []"
  by (induction cs arbitrary: remote) (simp_all add: update_conv' split: option.splits)

lemma track_args_loop_state:
  "fst (track_args_loop state algorithm_state it oid as)
   = (if count_list as (ArgByRef oid) \<noteq> 0 \<and> map_of (remote_objects algorithm_state) oid = None
      then fetch_requested state oid else state)"
proof (induction as arbitrary: state algorithm_state)
  case Nil
  then show ?case by simp
next
  case (Cons a as)
  show ?case
  proof (cases "a = ArgByRef oid")
    case False
    then have "track_args_loop state algorithm_state it oid (a # as)
        = track_args_loop state algorithm_state it oid as"
      by (cases a) simp_all
    with Cons.IH False show ?thesis by simp
  next
    case True
    obtain state2 algorithm_state2 where
      f: "fetch_missing_dependency state algorithm_state it oid = (state2, algorithm_state2)"
      by (cases "fetch_missing_dependency state algorithm_state it oid")
    from fetch_missing_dependency_remote [OF f] have "remote_objects algorithm_state2
        = register_cursors (remote_objects algorithm_state) oid [it]"
      by (simp del: register_cursors.simps)
    then have r: "map_of (remote_objects algorithm_state2) oid \<noteq> None"
      using register_cursors_None [of "remote_objects algorithm_state" oid "[it]"] by simp
    from f have s: "state2 = (if map_of (remote_objects algorithm_state) oid = None
                             then fetch_requested state oid else state)"
      by (auto simp: fetch_missing_dependency_def fetch_requested_def split: option.splits)
    from True f have "track_args_loop state algorithm_state it oid (a # as)
        = track_args_loop state2 algorithm_state2 it oid as" by simp
    with Cons.IH [where state = state2 and algorithm_state = algorithm_state2] r s True
    show ?thesis by simp
  qed
qed

lemma track_waiting_loop_state:
  "fst (track_waiting_loop state algorithm_state oid nodes)
   = (if cursors_of oid nodes \<noteq> [] \<and> map_of (remote_objects algorithm_state) oid = None
      then fetch_requested state oid else state)"
proof (induction nodes arbitrary: state algorithm_state)
  case Nil
  then show ?case by (simp add: cursors_of_def)
next
  case (Cons node nodes)
  obtain it task where n: "node = (it, task)" by (cases node)
  let ?c = "count_list (TaskSpec_args (spec task)) (ArgByRef oid)"
  obtain state2 algorithm_state2 where
    t: "track_args_loop state algorithm_state it oid (TaskSpec_args (spec task))
          = (state2, algorithm_state2)"
    by (cases "track_args_loop state algorithm_state it oid (TaskSpec_args (spec task))")
  from track_args_loop_remote [OF t] have
    r: "map_of (remote_objects algorithm_state2) oid = None
        \<longleftrightarrow> map_of (remote_objects algorithm_state) oid = None \<and> ?c = 0"
    by (simp add: register_cursors_None)
  from track_args_loop_state [of state algorithm_state it oid "TaskSpec_args (spec task)"] t
  have s: "state2 = (if ?c \<noteq> 0 \<and> map_of (remote_objects algorithm_state) oid = None
                    then fetch_requested state oid else state)"
    by simp
  have c: "cursors_of oid (node # nodes) = replicate ?c it @ cursors_of oid nodes"
    by (simp add: n cursors_of_def)
  from t n have step: "fst (track_waiting_loop state algorithm_state oid (node # nodes))
      = fst (track_waiting_loop state2 algorithm_state2 oid nodes)" by simp
  have ih: "fst (track_waiting_loop state2 algorithm_state2 oid nodes)
      = (if cursors_of oid nodes \<noteq> [] \<and> map_of (remote_objects algorithm_state2) oid = None
         then fetch_requested state2 oid else state2)"
    by (rule Cons.IH)
  note step
  also note ih
  also have "(if cursors_of oid nodes \<noteq> [] \<and> map_of (remote_objects algorithm_state2) oid = None
         then fetch_requested state2 oid else state2)
      = (if cursors_of oid (node # nodes) \<noteq> []
            \<and> map_of (remote_objects algorithm_state) oid = None
         then fetch_requested state oid else state)"
    unfolding c r s by (cases "?c = 0") simp_all
  finally show ?case .
qed

lemma handle_object_removed_state:
  assumes "handle_object_removed state algorithm_state oid = Inr (state1, algorithm_state1)"
      and "map_of (remote_objects algorithm_state) oid = None"
  shows "state1 = (if names_object oid algorithm_state then fetch_requested state oid else state)"
proof -
  let ?a1 = "algorithm_state\<lparr>local_objects := (local_objects algorithm_state)(oid := None)\<rparr>"
  let ?a2 = "requeue_dependent_loop ?a1 oid [] (dispatch_task_queue ?a1)"
  have q: "dispatch_task_queue ?a1 = [] @ dispatch_task_queue ?a1" by simp
  note a2 = requeue_dependent_loop_effect [OF q, of oid]
  have w: "cursors_of oid (waiting_task_queue ?a2) = registered_cursors oid algorithm_state"
    unfolding a2 registered_cursors_def by simp
  have r: "remote_objects ?a2 = remote_objects algorithm_state"
    unfolding a2 by simp
  from assms(1) have "state1 = fst (track_waiting_loop state ?a2 oid (waiting_task_queue ?a2))"
    by (simp add: handle_object_removed_def CHECK_def Let_def split: if_splits)
  then show ?thesis
    unfolding track_waiting_loop_state w r
    using assms(2) by (simp add: registered_cursors_empty_iff)
qed

lemma dispatch_tasks_loop_bookkeeping:
  "dispatch_tasks_loop state (algorithm_state\<lparr>local_objects := l, next_node := n\<rparr>) skipped rest
   = (case dispatch_tasks_loop state algorithm_state skipped rest of
        (state1, algorithm_state1) \<Rightarrow> (state1, algorithm_state1\<lparr>local_objects := l, next_node := n\<rparr>))"
proof (induction rest arbitrary: state algorithm_state skipped)
  case Nil
  then show ?case by simp
next
  case (Cons task rest)
  let ?w = "last (available_workers algorithm_state)"
  let ?st = "TaskQueueEntry_free (record_call (Print_resource_info (spec task))
         (assign_task_to_worker state (spec task) (task_spec_size task) (Some ?w))) task"
  let ?al = "algorithm_state
          \<lparr>available_workers := butlast (available_workers algorithm_state),
           executing_workers := executing_workers algorithm_state @ [?w],
           dispatch_task_queue := skipped @ rest\<rparr>"
  have u: "algorithm_state\<lparr>local_objects := l, next_node := n,
             available_workers := butlast (available_workers algorithm_state),
             executing_workers := executing_workers algorithm_state @ [?w],
             dispatch_task_queue := skipped @ rest\<rparr> = ?al\<lparr>local_objects := l, next_node := n\<rparr>"
    by simp
  show ?case
    using Cons.IH [where state = state and algorithm_state = algorithm_state
                     and skipped = "skipped @ [task]"]
          Cons.IH [where state = ?st and algorithm_state = ?al and skipped = skipped]
    by (simp add: Let_def u)
qed

lemma dispatch_tasks_bookkeeping:
  "dispatch_tasks state (algorithm_state\<lparr>local_objects := l, next_node := n\<rparr>)
   = (case dispatch_tasks state algorithm_state of
        (state1, algorithm_state1) \<Rightarrow> (state1, algorithm_state1\<lparr>local_objects := l, next_node := n\<rparr>))"
  unfolding dispatch_tasks_def using dispatch_tasks_loop_bookkeeping by simp

lemma object_removed_then_available_twice:
  assumes present: "local_objects algorithm_state oid \<noteq> None"
      and absent: "map_of (remote_objects algorithm_state) oid = None"
      and runnable: "\<forall>t\<in>set (dispatch_task_queue algorithm_state). can_run algorithm_state (spec t)"
      and missing: "\<forall>(it, t)\<in>set (waiting_task_queue algorithm_state).
                      \<not> can_run algorithm_state (spec t)"
      and ids: "distinct (map fst (waiting_task_queue algorithm_state))"
      and old: "\<forall>(it, t)\<in>set (waiting_task_queue algorithm_state). it < next_node algorithm_state"
      and queued: "t \<in> set (dispatch_task_queue algorithm_state)"
      and twice: "1 < count_list (TaskSpec_args (spec t)) (ArgByRef oid)"
  shows "remove_then_available state algorithm_state oid
         = Inl (Undefined_behaviour ''dereference of an erased waiting-queue iterator'')"
proof -
  define W where "W = waiting_task_queue algorithm_state"
  define D where "D = filter (\<lambda>u. TaskSpec_is_dependent_on (spec u) oid)
                        (dispatch_task_queue algorithm_state)"
  define K where "K = filter (\<lambda>u. \<not> TaskSpec_is_dependent_on (spec u) oid)
                        (dispatch_task_queue algorithm_state)"
  define N where "N = fresh_nodes (next_node algorithm_state) D"
  define its where "its = cursors_of oid (W @ N)"
  define remote1 where "remote1 = register_cursors (remote_objects algorithm_state) oid its"
  define a1 where "a1 = algorithm_state
           \<lparr>local_objects := (local_objects algorithm_state)(oid := None),
            waiting_task_queue := W @ N,
            next_node := next_node algorithm_state + length D,
            dispatch_task_queue := K,
            remote_objects := remote1\<rparr>"
  from present obtain state1 where
    r: "handle_object_removed state algorithm_state oid = Inr (state1, a1)"
    unfolding a1_def remote1_def its_def N_def D_def K_def W_def
    by (rule handle_object_removed_effect)
  have remote1: "remote1 = (if its = [] then remote_objects algorithm_state
            else remote_objects algorithm_state
                   @ [(oid, \<lparr>object_id = oid, dependent_tasks = its\<rparr>)])"
    unfolding remote1_def by (rule register_cursors_fresh [OF absent])
  have D_dispatch: "v \<in> set (dispatch_task_queue algorithm_state)
      \<and> TaskSpec_is_dependent_on (spec v) oid" if "v \<in> set D" for v
    using that by (simp add: D_def)
  from twice have "ArgByRef oid \<in> set (TaskSpec_args (spec t))"
    by (metis count_list_0_iff not_less_zero)
  with queued have "t \<in> set D" by (simp add: D_def TaskSpec_is_dependent_on_def)
  with twice have "\<exists>v\<in>set D. 1 < count_list (TaskSpec_args (spec v)) (ArgByRef oid)" by blast
  from split_list_first_prop [OF this] obtain D1 u D2 where
    D: "D = D1 @ u # D2"
    and Pu: "1 < count_list (TaskSpec_args (spec u)) (ArgByRef oid)"
    and first: "\<forall>v\<in>set D1. \<not> 1 < count_list (TaskSpec_args (spec v)) (ArgByRef oid)"
    by blast
  define m where "m = next_node algorithm_state + length D1"
  define N1 where "N1 = fresh_nodes (next_node algorithm_state) D1"
  define N2 where "N2 = fresh_nodes (Suc m) D2"
  define M where "M = N1 @ [(m, u)]"
  have N: "N = M @ N2"
    unfolding N_def D N1_def N2_def m_def M_def by (simp add: fresh_nodes_append)
  have count1: "count_list (TaskSpec_args (spec v)) (ArgByRef oid) = 1" if "v \<in> set D1" for v
  proof -
    from that have "v \<in> set D" by (simp add: D)
    from D_dispatch [OF this] have "ArgByRef oid \<in> set (TaskSpec_args (spec v))"
      by (simp add: TaskSpec_is_dependent_on_def)
    then have "count_list (TaskSpec_args (spec v)) (ArgByRef oid) \<noteq> 0"
      by (simp add: count_list_0_iff)
    moreover from that first
    have "\<not> 1 < count_list (TaskSpec_args (spec v)) (ArgByRef oid)" by simp
    ultimately show ?thesis by simp
  qed
  have "\<forall>(it, task)\<in>set N1. count_list (TaskSpec_args (spec task)) (ArgByRef oid) = 1"
    using fresh_nodes_member [of _ _ "next_node algorithm_state" D1] count1
    unfolding N1_def by blast
  then have cN1: "cursors_of oid N1 = map fst N1" by (rule cursors_of_once)
  define more_cursors where "more_cursors
      = replicate (count_list (TaskSpec_args (spec u)) (ArgByRef oid) - 2) m @ cursors_of oid N2"
  from Pu obtain c where cu: "count_list (TaskSpec_args (spec u)) (ArgByRef oid) = Suc (Suc c)"
    by (metis Suc_lessE One_nat_def less_imp_Suc_add)
  have cM: "cursors_of oid (M @ N2) = map fst M @ m # more_cursors"
    unfolding M_def more_cursors_def cursors_of_append cN1
    by (simp add: cursors_of_def cu)
  have its: "its = cursors_of oid W @ map fst M @ m # more_cursors"
    unfolding its_def N cursors_of_append [of oid W] cM ..
  then have nonempty: "its \<noteq> []" by simp
  have dist: "distinct (map fst (W @ N))"
  proof -
    have "it1 \<noteq> it2" if "(it1, t1) \<in> set W" "(it2, t2) \<in> set N" for it1 t1 it2 t2
    proof -
      from that(1) old have "it1 < next_node algorithm_state" by (auto simp: W_def)
      moreover from fresh_nodes_ge [OF that(2) [unfolded N_def]]
      have "next_node algorithm_state \<le> it2" .
      ultimately show ?thesis by simp
    qed
    then have "fst ` set W \<inter> fst ` set N = {}" by fastforce
    moreover have "distinct (map fst N)" unfolding N_def by (rule fresh_nodes_distinct)
    moreover have "distinct (map fst W)" using ids by (simp add: W_def)
    ultimately show ?thesis by simp
  qed
  define entry where "entry = \<lparr>object_id = oid, dependent_tasks = its\<rparr>"
  from nonempty remote1 have rm: "remote1 = remote_objects algorithm_state @ [(oid, entry)]"
    by (simp add: entry_def)
  have found: "map_of remote1 oid = Some entry"
    unfolding rm by (rule map_of_last [OF absent])
  have deleted: "AList.delete oid remote1 = remote_objects algorithm_state"
    unfolding rm by (rule delete_last [OF absent])
  define a2 where "a2 = algorithm_state
         \<lparr>local_objects := (local_objects algorithm_state)(oid \<mapsto> entry),
          waiting_task_queue := W @ N,
          next_node := next_node algorithm_state + length D,
          dispatch_task_queue := K\<rparr>"
  have a12: "a1\<lparr>remote_objects := remote_objects algorithm_state,
               local_objects := (local_objects a1)(oid \<mapsto> entry)\<rparr> = a2"
    unfolding a1_def a2_def by simp
  have dom2: "dom (local_objects a2) = dom (local_objects algorithm_state)"
    using present unfolding a2_def by auto
  have run2: "can_run a2 tspec = can_run algorithm_state tspec" for tspec
    by (rule can_run_local [OF dom2])
  have w2: "waiting_task_queue a2 = W @ N" unfolding a2_def by simp
  have skip: "\<forall>it\<in>set (cursors_of oid W).
      \<exists>task. map_of (waiting_task_queue a2) it = Some task \<and> \<not> can_run a2 (spec task)"
  proof
    fix it
    assume "it \<in> set (cursors_of oid W)"
    from cursors_of_member [OF this] obtain task where m: "(it, task) \<in> set W" ..
    then have "(it, task) \<in> set (W @ N)" by simp
    with dist have "map_of (W @ N) it = Some task" by (rule map_of_is_SomeI)
    moreover from m missing have "\<not> can_run algorithm_state (spec task)"
      by (auto simp: W_def)
    ultimately show "\<exists>task. map_of (waiting_task_queue a2) it = Some task
        \<and> \<not> can_run a2 (spec task)"
      unfolding run2 w2 by simp
  qed
  have inM: "task \<in> set D" if "(it, task) \<in> set M" for it task
  proof -
    from that have "(it, task) \<in> set N" by (simp add: N)
    then show ?thesis unfolding N_def by (rule fresh_nodes_member)
  qed
  have all: "\<forall>(it, task)\<in>set M. can_run a2 (spec task)"
    unfolding run2 using inM D_dispatch runnable by blast
  have w2': "waiting_task_queue a2 = W @ M @ N2" unfolding w2 N ..
  have dist': "distinct (map fst (W @ M @ N2))" using dist unfolding N .
  define a3 where "a3 = a2\<lparr>dispatch_task_queue := dispatch_task_queue a2 @ map snd M,
                            waiting_task_queue := W @ N2\<rparr>"
  have "m \<in> fst ` set M" unfolding M_def by force
  with dist' have "m \<notin> fst ` set (W @ N2)" by auto
  then have "map_of (W @ N2) m = None" by (simp only: map_of_eq_None_iff not_False_eq_True)
  then have erased: "map_of (waiting_task_queue a3) m = None"
    unfolding a3_def by simp
  have "move_dependent_tasks a2 its = move_dependent_tasks a2 (map fst M @ m # more_cursors)"
    unfolding its by (rule move_dependent_tasks_skip [OF skip])
  also have "\<dots> = move_dependent_tasks a3 (m # more_cursors)"
    unfolding a3_def by (rule move_dependent_tasks_prefix [OF w2' dist' all])
  also have "\<dots> = Inl (Undefined_behaviour ''dereference of an erased waiting-queue iterator'')"
    using erased by simp
  finally have mv: "move_dependent_tasks a2 its
      = Inl (Undefined_behaviour ''dereference of an erased waiting-queue iterator'')" .
  have chk: "local_objects a1 oid = None" unfolding a1_def by simp
  have rem: "remote_objects a1 = remote1" unfolding a1_def by simp
  have deps: "dependent_tasks entry = its" unfolding entry_def by simp
  have "handle_object_available state1 a1 oid
      = Inl (Undefined_behaviour ''dereference of an erased waiting-queue iterator'')"
    unfolding handle_object_available_def rem found deleted
    using nonempty by (simp add: CHECK_def chk a12 deps mv and_then_def)
  with r show ?thesis by (simp add: remove_then_available_def and_then_def)
qed

text \<open>C3, amended.  Let \<open>oid\<close> be present in \<open>local_objects\<close> and absent from \<open>remote_objects\<close>, in
  a state where every task of the dispatch queue has all its by-reference arguments in
  \<open>local_objects\<close>, every task of the waiting queue misses one of its by-reference arguments, and
  the nodes of the waiting queue are distinct and older than the next node of the allocator.

  If no task of the dispatch queue names \<open>oid\<close> more than once, \<^verbatim>\<open>handle_object_removed\<close>
  followed by \<^verbatim>\<open>handle_object_available\<close> returns; the waiting queue and \<open>remote_objects\<close> are
  what they were; \<open>local_objects\<close> has the same keys and, for every other object, the same
  entry.  When no queued task names \<open>oid\<close>, the scheduler state, the dispatch queue and the
  workers are what they were.  Otherwise one fetch of \<open>oid\<close> is requested if the object store
  is connected, the tasks of the dispatch queue that depend on \<open>oid\<close> are moved behind the
  others, both groups in their order, and \<^verbatim>\<open>dispatch_tasks\<close> runs once on that queue: the
  scheduler state, the dispatch queue and the available and executing workers are those it
  returns.  With no available worker the dispatch queue is left as the move made it.

  The bound on the occurrences of \<open>oid\<close> is needed: when a task of the dispatch queue names
  \<open>oid\<close> more than once, the round trip does not return, for the cursor of the task is read again
  after its node has been erased.\<close>

theorem object_removed_then_available_roundtrip:
  assumes "local_objects algorithm_state oid \<noteq> None"
      and "map_of (remote_objects algorithm_state) oid = None"
      and "\<forall>t\<in>set (dispatch_task_queue algorithm_state). can_run algorithm_state (spec t)"
      and "\<forall>(it, t)\<in>set (waiting_task_queue algorithm_state). \<not> can_run algorithm_state (spec t)"
      and "distinct (map fst (waiting_task_queue algorithm_state))"
      and "\<forall>(it, t)\<in>set (waiting_task_queue algorithm_state). it < next_node algorithm_state"
  shows "if list_all (\<lambda>t. count_list (TaskSpec_args (spec t)) (ArgByRef oid) \<le> 1)
              (dispatch_task_queue algorithm_state)
         then \<exists>state2 algorithm_state2.
                remove_then_available state algorithm_state oid = Inr (state2, algorithm_state2)
              \<and> waiting_task_queue algorithm_state2 = waiting_task_queue algorithm_state
              \<and> remote_objects algorithm_state2 = remote_objects algorithm_state
              \<and> dom (local_objects algorithm_state2) = dom (local_objects algorithm_state)
              \<and> local_objects algorithm_state2 |` (- {oid})
                  = local_objects algorithm_state |` (- {oid})
              \<and> (state2, dispatch_task_queue algorithm_state2,
                  available_workers algorithm_state2, executing_workers algorithm_state2)
                  = (if names_object oid algorithm_state
                     then (case dispatch_tasks (fetch_requested state oid)
                                  (dependents_moved algorithm_state oid) of
                             (state3, algorithm_state3) \<Rightarrow>
                               (state3, dispatch_task_queue algorithm_state3,
                                available_workers algorithm_state3,
                                executing_workers algorithm_state3))
                     else (state, dispatch_task_queue algorithm_state,
                           available_workers algorithm_state, executing_workers algorithm_state))
              \<and> (available_workers algorithm_state = [] \<longrightarrow>
                   dispatch_task_queue algorithm_state2
                   = dispatch_task_queue (dependents_moved algorithm_state oid))
         else remove_then_available state algorithm_state oid
              = Inl (Undefined_behaviour ''dereference of an erased waiting-queue iterator'')"
proof (cases "list_all (\<lambda>t. count_list (TaskSpec_args (spec t)) (ArgByRef oid) \<le> 1)
                (dispatch_task_queue algorithm_state)")
  case False
  then obtain t where "t \<in> set (dispatch_task_queue algorithm_state)"
    and "1 < count_list (TaskSpec_args (spec t)) (ArgByRef oid)"
    by (auto simp: list_all_iff not_le)
  from object_removed_then_available_twice [OF assms this] False show ?thesis by simp
next
  case True
  then have once: "\<forall>t\<in>set (dispatch_task_queue algorithm_state).
      count_list (TaskSpec_args (spec t)) (ArgByRef oid) \<le> 1"
    by (simp add: list_all_iff)
  define its where "its = registered_cursors oid algorithm_state"
  define R where "R = removed_and_returned algorithm_state oid its"
  define M where "M = dependents_moved algorithm_state oid"
  define l where "l = (local_objects algorithm_state)
                         (oid \<mapsto> \<lparr>object_id = oid, dependent_tasks = its\<rparr>)"
  define n where "n = next_node algorithm_state
      + length (filter (\<lambda>u. TaskSpec_is_dependent_on (spec u) oid)
                  (dispatch_task_queue algorithm_state))"
  from object_removed_then_available_steps
         [OF assms(1) assms(2) assms(3) assms(4) once assms(5) assms(6), of state]
  obtain state1 algorithm_state1 where
    r: "handle_object_removed state algorithm_state oid = Inr (state1, algorithm_state1)"
    and a: "handle_object_available state1 algorithm_state1 oid
             = Inr (if its = [] then (state1, R) else dispatch_tasks state1 R)"
    unfolding R_def its_def by blast
  from handle_object_removed_state [OF r assms(2)]
  have s1: "state1 = (if names_object oid algorithm_state then fetch_requested state oid else state)" .
  have names: "names_object oid algorithm_state \<longleftrightarrow> its \<noteq> []"
    unfolding its_def by (simp add: registered_cursors_empty_iff)
  have R: "R = M\<lparr>local_objects := l, next_node := n\<rparr>"
    unfolding R_def M_def l_def n_def
    by (simp add: removed_and_returned_def dependents_moved_def)
  from r a have rt: "remove_then_available state algorithm_state oid
      = Inr (if its = [] then (state1, R) else dispatch_tasks state1 R)"
    by (simp add: remove_then_available_def and_then_def)
  from assms(1) have dom_l: "dom l = dom (local_objects algorithm_state)"
    unfolding l_def by auto
  have rest_l: "l |` (- {oid}) = local_objects algorithm_state |` (- {oid})"
    unfolding l_def by (rule ext) (simp add: restrict_map_def)
  have M_fields: "waiting_task_queue M = waiting_task_queue algorithm_state"
    "remote_objects M = remote_objects algorithm_state"
    "available_workers M = available_workers algorithm_state"
    "executing_workers M = executing_workers algorithm_state"
    unfolding M_def by (simp_all add: dependents_moved_def)
  show ?thesis
  proof (cases "names_object oid algorithm_state")
    case False
    with names have e: "its = []" by simp
    from False have "filter (\<lambda>u. TaskSpec_is_dependent_on (spec u) oid)
        (dispatch_task_queue algorithm_state) = []"
      by (auto simp: names_object_def list_ex_iff filter_empty_conv)
    then have "M = algorithm_state"
      unfolding M_def by (simp add: dependents_moved_def filter_empty_conv filter_id_conv)
    with R have R': "R = algorithm_state\<lparr>local_objects := l, next_node := n\<rparr>" by simp
    from rt e s1 False have "remove_then_available state algorithm_state oid = Inr (state, R)"
      by simp
    with False dom_l rest_l \<open>M = algorithm_state\<close> show ?thesis
      unfolding if_P [OF True] R' M_def [symmetric]
      by (intro exI [of _ state] exI [of _ "algorithm_state\<lparr>local_objects := l, next_node := n\<rparr>"])
         simp
  next
    case named: True
    with names have ne: "its \<noteq> []" by simp
    from named s1 have s1': "state1 = fetch_requested state oid" by simp
    obtain state3 algorithm_state3 where
      d: "dispatch_tasks (fetch_requested state oid) M = (state3, algorithm_state3)"
      by (cases "dispatch_tasks (fetch_requested state oid) M")
    have dR: "dispatch_tasks state1 R = (state3, algorithm_state3\<lparr>local_objects := l, next_node := n\<rparr>)"
      unfolding R s1' dispatch_tasks_bookkeeping d by simp
    from rt ne dR have rt': "remove_then_available state algorithm_state oid
        = Inr (state3, algorithm_state3\<lparr>local_objects := l, next_node := n\<rparr>)" by simp
    from dispatch_tasks_frame [OF d] M_fields
    have f: "waiting_task_queue algorithm_state3 = waiting_task_queue algorithm_state"
      "remote_objects algorithm_state3 = remote_objects algorithm_state"
      by simp_all
    have nw: "dispatch_task_queue algorithm_state3 = dispatch_task_queue M"
      if "available_workers algorithm_state = []"
    proof -
      from that M_fields have "available_workers M = []" by simp
      from dispatch_tasks_no_worker [OF this, of "fetch_requested state oid"] d
      show ?thesis by simp
    qed
    from named rt' f nw dom_l rest_l d show ?thesis
      unfolding if_P [OF True] M_def [symmetric]
      by (intro exI [of _ state3]
                exI [of _ "algorithm_state3\<lparr>local_objects := l, next_node := n\<rparr>"])
         simp
  qed
qed

text \<open>C3 as stated fails in two ways.  With the dispatch queue \<open>[T1, T2]\<close> where only \<open>T1\<close> depends
  on object 10, the removal splices \<open>T1\<close> to the waiting queue and the arrival pushes it to the
  back of the dispatch queue, which becomes \<open>[T2, T1]\<close>; the entry of object 10 in
  \<open>local_objects\<close> had no dependent task and now holds the erased cursor 0.  And in the state
  reached when object 10 arrives and a task that names it twice is scheduled, the round trip
  does not return: the second cursor of the task is read after its node has been erased.\<close>

theorem object_removed_then_available_counterexample:
  "remove_then_available example_state example_roundtrip_algorithm_state (ID 10)
     = Inr (example_state\<lparr>calls := [Plasma_fetch [ID 10], Start_worker NIL_ACTOR_ID]\<rparr>,
            example_roundtrip_algorithm_state
              \<lparr>dispatch_task_queue :=
                 [example_object_task 2 [], example_object_task 1 [ArgByRef (ID 10)]],
               local_objects := [ID 10 \<mapsto> \<lparr>object_id = ID 10, dependent_tasks = [0]\<rparr>],
               next_node := 1\<rparr>)
   \<and> dispatch_task_queue example_roundtrip_algorithm_state
       = [example_object_task 1 [ArgByRef (ID 10)], example_object_task 2 []]
   \<and> [example_object_task 2 [], example_object_task 1 [ArgByRef (ID 10)]]
       \<noteq> dispatch_task_queue example_roundtrip_algorithm_state
   \<and> local_objects example_roundtrip_algorithm_state (ID 10)
       = Some \<lparr>object_id = ID 10, dependent_tasks = []\<rparr>
   \<and> reachable example_twice_algorithm_state
   \<and> remove_then_available example_state example_twice_algorithm_state (ID 10)
       = Inl (Undefined_behaviour ''dereference of an erased waiting-queue iterator'')"
proof -
  let ?a = "SchedulingAlgorithmState_init
              \<lparr>local_objects := [ID 10 \<mapsto> \<lparr>object_id = ID 10, dependent_tasks = []\<rparr>]\<rparr>"
  have "handle_event (Object_available (ID 10)) example_state SchedulingAlgorithmState_init
          = Inr (example_state, ?a)"
    by (simp add: handle_object_available_def CHECK_def SchedulingAlgorithmState_init_def)
  with reachable_init have 1: "reachable ?a" by (rule reachable_step)
  have "\<exists>state1. handle_event
          (Task_scheduled (example_task 5 1 [ArgByRef (ID 10), ArgByRef (ID 10)]) 8)
          example_state ?a = Inr (state1, example_twice_algorithm_state)"
    by (simp add: handle_task_scheduled_def DCHECK_def CHECK_def and_then_def
          queue_task_locally_def can_run_def queue_dispatch_task_def queue_task_def
          update_task_table_def dispatch_tasks_def record_call_def
          TaskQueueEntry_init_def example_task_def example_state_def example_object_task_def
          example_twice_algorithm_state_def SchedulingAlgorithmState_init_def)
  then obtain state1 where "handle_event
          (Task_scheduled (example_task 5 1 [ArgByRef (ID 10), ArgByRef (ID 10)]) 8)
          example_state ?a = Inr (state1, example_twice_algorithm_state)" ..
  with 1 have 2: "reachable example_twice_algorithm_state" by (rule reachable_step)
  have 3: "remove_then_available example_state example_twice_algorithm_state (ID 10)
       = Inl (Undefined_behaviour ''dereference of an erased waiting-queue iterator'')"
    by (simp add: remove_then_available_def and_then_def handle_object_removed_def
        handle_object_available_def CHECK_def TaskSpec_is_dependent_on_def
        fetch_missing_dependency_def can_run_def dispatch_tasks_def record_call_def
        example_twice_algorithm_state_def example_object_task_def example_task_def
        example_state_def TaskQueueEntry_init_def SchedulingAlgorithmState_init_def)
  have 4: "remove_then_available example_state example_roundtrip_algorithm_state (ID 10)
     = Inr (example_state\<lparr>calls := [Plasma_fetch [ID 10], Start_worker NIL_ACTOR_ID]\<rparr>,
            example_roundtrip_algorithm_state
              \<lparr>dispatch_task_queue :=
                 [example_object_task 2 [], example_object_task 1 [ArgByRef (ID 10)]],
               local_objects := [ID 10 \<mapsto> \<lparr>object_id = ID 10, dependent_tasks = [0]\<rparr>],
               next_node := 1\<rparr>)
   \<and> dispatch_task_queue example_roundtrip_algorithm_state
       = [example_object_task 1 [ArgByRef (ID 10)], example_object_task 2 []]
   \<and> [example_object_task 2 [], example_object_task 1 [ArgByRef (ID 10)]]
       \<noteq> dispatch_task_queue example_roundtrip_algorithm_state
   \<and> local_objects example_roundtrip_algorithm_state (ID 10)
       = Some \<lparr>object_id = ID 10, dependent_tasks = []\<rparr>"
    by (simp add: remove_then_available_def and_then_def handle_object_removed_def
        handle_object_available_def CHECK_def TaskSpec_is_dependent_on_def
        fetch_missing_dependency_def can_run_def dispatch_tasks_def record_call_def
        example_roundtrip_algorithm_state_def example_object_task_def example_task_def
        example_state_def TaskQueueEntry_init_def SchedulingAlgorithmState_init_def)
  from 4 2 3 show ?thesis by blast
qed

text \<open>The amended C3 at two states.  In the first a waiting task also needs the remote object 11
  and two of the three tasks of the dispatch queue depend on object 10, each naming it once; no
  worker is available.  In the second a task that names object 10 twice has joined the
  dispatch queue.\<close>

theorem object_removed_then_available_roundtrip_witness:
  "(\<exists>state2 algorithm_state2.
      remove_then_available example_state example_waiting_algorithm_state (ID 10)
        = Inr (state2, algorithm_state2)
    \<and> waiting_task_queue algorithm_state2
        = [(0, example_object_task 4 [ArgByRef (ID 10), ArgByRef (ID 11)])]
    \<and> remote_objects algorithm_state2 = [(ID 11, \<lparr>object_id = ID 11, dependent_tasks = [0]\<rparr>)]
    \<and> dom (local_objects algorithm_state2) = {ID 10}
    \<and> dispatch_task_queue algorithm_state2
        = [example_object_task 2 [], example_object_task 1 [ArgByRef (ID 10)],
           example_object_task 3 [ArgByVal 7, ArgByRef (ID 10)]]
    \<and> calls state2 = [Plasma_fetch [ID 10], Start_worker NIL_ACTOR_ID])
   \<and> remove_then_available example_state example_twice_behind_algorithm_state (ID 10)
       = Inl (Undefined_behaviour ''dereference of an erased waiting-queue iterator'')"
proof -
  let ?a = example_waiting_algorithm_state
  let ?b = example_twice_behind_algorithm_state
  note defs = example_twice_behind_algorithm_state_def example_waiting_algorithm_state_def
    SchedulingAlgorithmState_init_def can_run_def example_object_task_def example_task_def
    TaskQueueEntry_init_def
  have a1: "local_objects ?a (ID 10) \<noteq> None"
    and a2: "map_of (remote_objects ?a) (ID 10) = None"
    and a3: "\<forall>t\<in>set (dispatch_task_queue ?a). can_run ?a (spec t)"
    and a4: "\<forall>(it, t)\<in>set (waiting_task_queue ?a). \<not> can_run ?a (spec t)"
    and a5: "distinct (map fst (waiting_task_queue ?a))"
    and a6: "\<forall>(it, t)\<in>set (waiting_task_queue ?a). it < next_node ?a"
    and a7: "list_all (\<lambda>t. count_list (TaskSpec_args (spec t)) (ArgByRef (ID 10)) \<le> 1)
               (dispatch_task_queue ?a)"
    by (simp_all add: defs)
  have b1: "local_objects ?b (ID 10) \<noteq> None"
    and b2: "map_of (remote_objects ?b) (ID 10) = None"
    and b3: "\<forall>t\<in>set (dispatch_task_queue ?b). can_run ?b (spec t)"
    and b4: "\<forall>(it, t)\<in>set (waiting_task_queue ?b). \<not> can_run ?b (spec t)"
    and b5: "distinct (map fst (waiting_task_queue ?b))"
    and b6: "\<forall>(it, t)\<in>set (waiting_task_queue ?b). it < next_node ?b"
    and b7: "\<not> list_all (\<lambda>t. count_list (TaskSpec_args (spec t)) (ArgByRef (ID 10)) \<le> 1)
               (dispatch_task_queue ?b)"
    by (simp_all add: defs)
  from object_removed_then_available_roundtrip [OF b1 b2 b3 b4 b5 b6, of example_state] b7
  have twice: "remove_then_available example_state ?b (ID 10)
       = Inl (Undefined_behaviour ''dereference of an erased waiting-queue iterator'')"
    by (simp only: if_False)
  have named: "names_object (ID 10) ?a"
    by (simp add: names_object_def TaskSpec_is_dependent_on_def defs)
  have none: "available_workers ?a = []" by (simp add: defs)
  from object_removed_then_available_roundtrip [OF a1 a2 a3 a4 a5 a6, of example_state] a7
  have "\<exists>state2 algorithm_state2.
           remove_then_available example_state ?a (ID 10) = Inr (state2, algorithm_state2)
         \<and> waiting_task_queue algorithm_state2 = waiting_task_queue ?a
         \<and> remote_objects algorithm_state2 = remote_objects ?a
         \<and> dom (local_objects algorithm_state2) = dom (local_objects ?a)
         \<and> local_objects algorithm_state2 |` (- {ID 10}) = local_objects ?a |` (- {ID 10})
         \<and> (state2, dispatch_task_queue algorithm_state2,
             available_workers algorithm_state2, executing_workers algorithm_state2)
             = (if names_object (ID 10) ?a
                then (case dispatch_tasks (fetch_requested example_state (ID 10))
                             (dependents_moved ?a (ID 10)) of
                        (state3, algorithm_state3) \<Rightarrow>
                          (state3, dispatch_task_queue algorithm_state3,
                           available_workers algorithm_state3,
                           executing_workers algorithm_state3))
                else (example_state, dispatch_task_queue ?a,
                      available_workers ?a, executing_workers ?a))
         \<and> (available_workers ?a = [] \<longrightarrow>
              dispatch_task_queue algorithm_state2
              = dispatch_task_queue (dependents_moved ?a (ID 10)))"
    by (simp only: if_True)
  then obtain state2 algorithm_state2 where
    rt: "remove_then_available example_state ?a (ID 10) = Inr (state2, algorithm_state2)"
    and w: "waiting_task_queue algorithm_state2 = waiting_task_queue ?a"
    and r: "remote_objects algorithm_state2 = remote_objects ?a"
    and l: "dom (local_objects algorithm_state2) = dom (local_objects ?a)"
    and s: "(state2, dispatch_task_queue algorithm_state2,
             available_workers algorithm_state2, executing_workers algorithm_state2)
             = (case dispatch_tasks (fetch_requested example_state (ID 10))
                             (dependents_moved ?a (ID 10)) of
                        (state3, algorithm_state3) \<Rightarrow>
                          (state3, dispatch_task_queue algorithm_state3,
                           available_workers algorithm_state3,
                           executing_workers algorithm_state3))"
    and d: "dispatch_task_queue algorithm_state2
              = dispatch_task_queue (dependents_moved ?a (ID 10))"
    using named none by auto
  from w have "waiting_task_queue algorithm_state2
       = [(0, example_object_task 4 [ArgByRef (ID 10), ArgByRef (ID 11)])]"
    by (simp add: example_waiting_algorithm_state_def SchedulingAlgorithmState_init_def)
  moreover from r have "remote_objects algorithm_state2
       = [(ID 11, \<lparr>object_id = ID 11, dependent_tasks = [0]\<rparr>)]"
    by (simp add: example_waiting_algorithm_state_def SchedulingAlgorithmState_init_def)
  moreover from l have "dom (local_objects algorithm_state2) = {ID 10}"
    by (simp add: example_waiting_algorithm_state_def SchedulingAlgorithmState_init_def)
  moreover from d have "dispatch_task_queue algorithm_state2
       = [example_object_task 2 [], example_object_task 1 [ArgByRef (ID 10)],
          example_object_task 3 [ArgByVal 7, ArgByRef (ID 10)]]"
    by (simp add: dependents_moved_def example_waiting_algorithm_state_def
          SchedulingAlgorithmState_init_def TaskSpec_is_dependent_on_def
          example_object_task_def example_task_def TaskQueueEntry_init_def)
  moreover from s have "calls state2 = [Plasma_fetch [ID 10], Start_worker NIL_ACTOR_ID]"
    by (simp add: dependents_moved_def fetch_requested_def dispatch_tasks_def record_call_def
          example_state_def example_waiting_algorithm_state_def
          SchedulingAlgorithmState_init_def TaskSpec_is_dependent_on_def
          example_object_task_def example_task_def TaskQueueEntry_init_def)
  ultimately show ?thesis using rt twice by blast
qed

end
